theory Spec2Isabelle
  imports Complex_Main "HOL-Library.AList"
begin

section \<open>Stream-routing brokers: transactions, RoundRobin, FanOutSequential, DynamicFanIn, Retry\<close>

text \<open>
  The brokers are goroutines that block on channel operations. Each goroutine is
  embedded as a function from the outcomes of its blocking operations (which branch of
  each \<^verbatim>\<open>select\<close> fired, what a receive returned, what a shared flag read
  as), in the order the goroutine meets them, to the list of actions it performs. An
  outcome list that runs out leaves the goroutine blocked at that point: it performs no
  further action. A property proved for every outcome list holds on every execution.
\<close>

subsection \<open>Transactions and errors\<close>

text \<open>
  A \<^verbatim>\<open>message.Transaction\<close> pairs a payload with the channel on which its
  acknowledgement is written. Channels made by \<^verbatim>\<open>make(chan error)\<close> are
  identified by numbers; a batch is its list of parts.
\<close>

type_synonym batch = "string list"
type_synonym chan = nat

record transaction =
  Payload :: batch
  responseChan :: chan

text \<open>The errors of \<^verbatim>\<open>internal/component\<close> that the brokers return, and
  \<^verbatim>\<open>errors.New\<close>. A Go \<^verbatim>\<open>error\<close> value is an \<open>error option\<close>:
  \<open>None\<close> is \<^verbatim>\<open>nil\<close>.\<close>

datatype error = ErrTimeout | ErrTypeClosed | ErrAlreadyStarted | ErrorsNew string

type_synonym result = "error option"

text \<open>What a call of \<^verbatim>\<open>Transaction.Ack\<close> comes to: the value is received
  from the acknowledgement channel, the context is cancelled first, or neither happens and
  the call stays blocked.\<close>

datatype ack_outcome = AckDelivered | AckCancelled | AckBlocked

text \<open>
  Modelled from the spec: \<^verbatim>\<open>Transaction.Ack(ctx, err)\<close> is defined in
  \<^verbatim>\<open>internal/message\<close>, which is not among the sources. The specification
  (section 6) says that it "delivers the acknowledgment" and "returns an error only when
  the caller's context is cancelled". The call therefore either writes the value to the
  transaction's acknowledgement channel, or gives up because the context is cancelled, or
  stays blocked while nobody receives and the context is live; which one happens is an
  outcome the environment supplies. \<open>Ack\<close> returns the write it performed, if any.
\<close>

definition Ack :: "transaction \<Rightarrow> ack_outcome \<Rightarrow> result \<Rightarrow> (chan \<times> result) list" where
  "Ack ts out r = (case out of AckDelivered \<Rightarrow> [(responseChan ts, r)] | _ \<Rightarrow> [])"

text \<open>How far a piece of a goroutine got: it ran to its end (with a value), the goroutine
  returned from inside it, or it is blocked because no further outcome arrives.\<close>

datatype 'a progress = Finished 'a | Stopped | Waiting

subsection \<open>RoundRobin (internal/old/broker/round_robin.go)\<close>

text \<open>
  One iteration of \<^verbatim>\<open>RoundRobin.loop\<close> meets: the read of \<^verbatim>\<open>o.running\<close>
  in the loop condition, the select that receives from \<^verbatim>\<open>o.transactions\<close> or
  from \<^verbatim>\<open>o.closeChan\<close>, and the select that sends on
  \<^verbatim>\<open>o.outputTSChans[i]\<close> or receives from \<^verbatim>\<open>o.closeChan\<close>.
\<close>

datatype send_outcome = Accepted | CloseOnSend

datatype rr_event =
    NotRunning
  | InboundClosed
  | CloseOnReceive
  | Received transaction send_outcome

datatype rr_action =
    Forward nat transaction
  | IndexPanic
  | CloseOutputChan nat
  | CloseAllOutputs
  | CloseClosedChan

text \<open>The deferred function of the loop: it closes every output channel in index order,
  then the outputs, then \<^verbatim>\<open>closedChan\<close>.\<close>

definition rr_deferred :: "nat \<Rightarrow> rr_action list" where
  "rr_deferred n = map CloseOutputChan [0..<n] @ [CloseAllOutputs, CloseClosedChan]"

text \<open>The loop over \<open>n\<close> outputs with cursor \<open>i\<close>. Every \<^verbatim>\<open>return\<close> runs the
  deferred function. With no output, indexing \<^verbatim>\<open>o.outputTSChans[i]\<close> panics, and
  the deferred function runs as the panic unwinds.\<close>

fun rr_iterate :: "nat \<Rightarrow> nat \<Rightarrow> rr_event list \<Rightarrow> rr_action list" where
  "rr_iterate n i [] = []"
| "rr_iterate n i (NotRunning # es) = rr_deferred n"
| "rr_iterate n i (InboundClosed # es) = rr_deferred n"
| "rr_iterate n i (CloseOnReceive # es) = rr_deferred n"
| "rr_iterate n i (Received ts out # es) =
     (if n \<le> i then IndexPanic # rr_deferred n
      else case out of
          CloseOnSend \<Rightarrow> rr_deferred n
        | Accepted \<Rightarrow> Forward i ts # rr_iterate n (if n \<le> i + 1 then 0 else i + 1) es)"

definition rr_loop :: "nat \<Rightarrow> rr_event list \<Rightarrow> rr_action list" where
  "rr_loop n es = rr_iterate n 0 es"

text \<open>What the outputs see: every forwarded transaction with the index of its output, and
  the transactions one output receives, in order.\<close>

fun forwards :: "rr_action list \<Rightarrow> (nat \<times> transaction) list" where
  "forwards [] = []"
| "forwards (Forward i ts # as) = (i, ts) # forwards as"
| "forwards (_ # as) = forwards as"

definition delivered :: "nat \<Rightarrow> rr_action list \<Rightarrow> transaction list" where
  "delivered i as = map snd (filter (\<lambda>p. fst p = i) (forwards as))"

fun is_received :: "rr_event \<Rightarrow> bool" where
  "is_received (Received _ _) = True"
| "is_received _ = False"

text \<open>The inbound side hands over the transactions \<open>ts\<close>, each accepted by its output,
  and then whatever \<open>rest\<close> holds.\<close>

definition rr_inbound :: "transaction list \<Rightarrow> rr_event list \<Rightarrow> rr_event list" where
  "rr_inbound ts rest = map (\<lambda>t. Received t Accepted) ts @ rest"

text \<open>The outcomes on which the loop returns: the broker is being closed
  (\<^verbatim>\<open>CloseAsync\<close> sets \<^verbatim>\<open>running\<close> to 0 and closes \<^verbatim>\<open>closeChan\<close>)
  or the inbound channel is closed.\<close>

fun rr_stop :: "rr_event \<Rightarrow> bool" where
  "rr_stop NotRunning = True"
| "rr_stop InboundClosed = True"
| "rr_stop CloseOnReceive = True"
| "rr_stop (Received ts CloseOnSend) = True"
| "rr_stop (Received ts Accepted) = False"

subsection \<open>FanOutSequential (broker/fan_out_sequential.go, the second file of src/unnamed/part_002)\<close>

text \<open>
  One try of sending the transaction to output \<open>i\<close> inside the loop labelled
  \<^verbatim>\<open>sendLoop\<close>: the select that sends on \<^verbatim>\<open>o.outputTSChans[i]\<close> or
  sees \<^verbatim>\<open>o.ctx.Done()\<close>, then the select that receives the output's result from
  \<^verbatim>\<open>resChan\<close> or sees \<^verbatim>\<open>o.ctx.Done()\<close>, then, on an error result,
  \<^verbatim>\<open>throt.Retry()\<close> (package \<^verbatim>\<open>throttle\<close>, not among the sources:
  its boolean result is an outcome).
\<close>

datatype attempt =
    SendCancelled
  | ResultCancelled
  | Failed error bool
  | Succeeded

datatype fs_action =
    Took transaction
  | Dispatch nat batch
  | Reply nat result
  | Acknowledge chan result
  | WgDone

text \<open>The \<^verbatim>\<open>for i := range o.outputTSChans\<close> loop from output \<open>i\<close> on, for the
  payload \<open>p\<close>. \<^verbatim>\<open>msgCopy\<close> is a copy of the payload; \<^verbatim>\<open>resChan\<close> is
  made once per output and used by every try on that output.\<close>

fun fs_outputs :: "nat \<Rightarrow> nat \<Rightarrow> batch \<Rightarrow> attempt list \<Rightarrow> fs_action list \<times> unit progress" where
  "fs_outputs n i p atts =
     (if n \<le> i then ([], Finished ())
      else case atts of
          [] \<Rightarrow> ([], Waiting)
        | SendCancelled # rest \<Rightarrow> ([], Stopped)
        | ResultCancelled # rest \<Rightarrow> ([Dispatch i p], Stopped)
        | Failed e retry # rest \<Rightarrow>
            (if retry
             then (Dispatch i p # Reply i (Some e) # fst (fs_outputs n i p rest),
                   snd (fs_outputs n i p rest))
             else ([Dispatch i p, Reply i (Some e)], Stopped))
        | Succeeded # rest \<Rightarrow>
            (Dispatch i p # Reply i None # fst (fs_outputs n (i + 1) p rest),
             snd (fs_outputs n (i + 1) p rest)))"

text \<open>The body of the outer loop for one transaction received from
  \<^verbatim>\<open>o.transactions\<close>: the outputs in turn, then
  \<^verbatim>\<open>_ = ts.Ack(o.ctx, nil)\<close>.\<close>

definition fs_transaction ::
  "nat \<Rightarrow> transaction \<Rightarrow> attempt list \<Rightarrow> ack_outcome \<Rightarrow> fs_action list \<times> unit progress" where
  "fs_transaction n ts atts ack =
     (case fs_outputs n 0 (Payload ts) atts of
        (as, Finished u) \<Rightarrow>
          (Took ts # as @ map (\<lambda>(c, r). Acknowledge c r) (Ack ts ack None),
           if ack = AckBlocked then Waiting else Finished ())
      | (as, Stopped) \<Rightarrow> (Took ts # as, Stopped)
      | (as, Waiting) \<Rightarrow> (Took ts # as, Waiting))"

text \<open>One \<^verbatim>\<open>sendLoop\<close> goroutine: the select on \<^verbatim>\<open>o.transactions\<close> and
  \<^verbatim>\<open>o.ctx.Done()\<close>, then the body. Every \<^verbatim>\<open>return\<close> runs the deferred
  \<^verbatim>\<open>wg.Done()\<close>.\<close>

datatype fs_iteration =
    ContextDone
  | TransactionsClosed
  | Transaction transaction "attempt list" ack_outcome

fun fs_sendLoop :: "nat \<Rightarrow> fs_iteration list \<Rightarrow> fs_action list" where
  "fs_sendLoop n [] = []"
| "fs_sendLoop n (ContextDone # its) = [WgDone]"
| "fs_sendLoop n (TransactionsClosed # its) = [WgDone]"
| "fs_sendLoop n (Transaction ts atts ack # its) =
     (case fs_transaction n ts atts ack of
        (as, Finished u) \<Rightarrow> as @ fs_sendLoop n its
      | (as, Stopped) \<Rightarrow> as @ [WgDone]
      | (as, Waiting) \<Rightarrow> as)"

subsection \<open>DynamicFanIn (broker/dynamic_fan_in.go, the second file of src/internal/old/broker/fan_out_test.go)\<close>

text \<open>
  The two Go maps \<^verbatim>\<open>inputs\<close> and \<^verbatim>\<open>inputClosedChans\<close> are association lists,
  read with \<open>map_of\<close> and written with \<open>AList.update\<close> and \<open>AList.delete\<close>. An
  input is identified by a number, and so is each channel made by
  \<^verbatim>\<open>make(chan struct{})\<close>: \<open>nextChan\<close> is the next unused one.

  A \<^verbatim>\<open>range\<close> over a Go map visits the entries in an order the runtime chooses
  anew for every loop. Such an order is a function that rearranges the entries of the
  map; each \<^verbatim>\<open>range\<close> of the code takes its own.
\<close>

type_synonym label = string
type_synonym dyn_input = nat
type_synonym range_order = "(label \<times> dyn_input) list \<Rightarrow> (label \<times> dyn_input) list"

record fan_in =
  inputs :: "(label \<times> dyn_input) list"
  inputClosedChans :: "(label \<times> chan) list"
  nextChan :: chan

subsubsection \<open>The forwarder goroutine of addInput\<close>

text \<open>
  The goroutine calls \<^verbatim>\<open>d.onAdd(ident)\<close>, then receives from the input's
  transaction channel and sends on \<^verbatim>\<open>d.transactionChan\<close> until the input's channel
  is closed; its deferred function calls \<^verbatim>\<open>d.onRemove(ident)\<close> and closes
  \<^verbatim>\<open>cChan\<close>. The send is a plain channel send: on a closed
  \<^verbatim>\<open>d.transactionChan\<close> it panics, and the deferred function runs as the panic
  unwinds.
\<close>

datatype f_event = Forwarded transaction | SourceClosed | SendOnClosed transaction

datatype f_action =
    OnAdd label
  | Merge label transaction
  | OnRemove label
  | CloseDone chan
  | SendPanic

fun forwarding :: "label \<Rightarrow> chan \<Rightarrow> f_event list \<Rightarrow> f_action list" where
  "forwarding l c [] = []"
| "forwarding l c (Forwarded t # es) = Merge l t # forwarding l c es"
| "forwarding l c (SourceClosed # es) = [OnRemove l, CloseDone c]"
| "forwarding l c (SendOnClosed t # es) = [OnRemove l, CloseDone c, SendPanic]"

definition forwarder :: "label \<Rightarrow> chan \<Rightarrow> f_event list \<Rightarrow> f_action list" where
  "forwarder l c es = OnAdd l # forwarding l c es"

subsubsection \<open>addInput, removeInput and the manager loop\<close>

datatype m_action =
    GoForwarder label dyn_input chan
  | InputCloseAsync dyn_input
  | DoneObserved label chan
  | RemoveTimedOut label
  | ResultSent result
  | ResultChanClosed
  | CloseTransactionChan
  | CloseBrokerClosedChan

text \<open>\<^verbatim>\<open>addInput\<close> makes the done channel, launches the forwarder and stores the
  input and the channel under the label; it returns \<^verbatim>\<open>nil\<close>.\<close>

definition addInput :: "fan_in \<Rightarrow> label \<Rightarrow> dyn_input \<Rightarrow> fan_in \<times> m_action list \<times> result" where
  "addInput d ident inp =
     (d\<lparr>inputs := AList.update ident inp (inputs d),
        inputClosedChans := AList.update ident (nextChan d) (inputClosedChans d),
        nextChan := Suc (nextChan d)\<rparr>,
      [GoForwarder ident inp (nextChan d)],
      None)"

text \<open>\<^verbatim>\<open>removeInput\<close>: the select receives from the label's done channel (possible
  once the forwarder has closed it) or from \<^verbatim>\<open>time.After(timeout)\<close>. A label
  without a done channel gives a nil channel, from which nothing is ever received.\<close>

datatype wait_outcome = DoneClosed | TimerFired

definition removeInput :: "fan_in \<Rightarrow> label \<Rightarrow> wait_outcome \<Rightarrow> fan_in \<times> m_action list \<times> result" where
  "removeInput d ident w =
     (case map_of (inputs d) ident of
        None \<Rightarrow> (d, [], None)
      | Some inp \<Rightarrow>
          (case (w, map_of (inputClosedChans d) ident) of
             (DoneClosed, Some c) \<Rightarrow>
               (d\<lparr>inputs := AList.delete ident (inputs d),
                  inputClosedChans := AList.delete ident (inputClosedChans d)\<rparr>,
                [InputCloseAsync inp, DoneObserved ident c],
                None)
           | _ \<Rightarrow> (d, [InputCloseAsync inp, RemoveTimedOut ident], Some ErrTimeout)))"

text \<open>The body of the \<^verbatim>\<open>newInputChan\<close> case of the manager loop, up to the select
  that hands the result back.\<close>

definition handle_request ::
  "fan_in \<Rightarrow> label \<Rightarrow> dyn_input option \<Rightarrow> wait_outcome \<Rightarrow> fan_in \<times> m_action list \<times> result" where
  "handle_request d name inp w =
     (let (d1, as1, err1) =
            (if map_of (inputs d) name \<noteq> None then removeInput d name w else (d, [], None))
      in case (err1, inp) of
           (None, Some i) \<Rightarrow> (let (d2, as2, err2) = addInput d1 name i in (d2, as1 @ as2, err2))
         | _ \<Rightarrow> (d1, as1, err1))"

text \<open>The select after it: the result is sent on \<^verbatim>\<open>wrappedInput.ResChan\<close>, or
  \<^verbatim>\<open>d.closeChan\<close> fires, the result channel is closed and the loop returns.\<close>

datatype deliver_outcome = ResultTaken | CloseOnDeliver

datatype m_event =
    Request label "dyn_input option" wait_outcome deliver_outcome
  | RequestsClosed
  | CloseRaised

text \<open>The loop \<^verbatim>\<open>for { select { ... } }\<close>: the actions, and the broker state when
  the loop returned (\<open>None\<close> while it is blocked in its select).\<close>

fun manager_requests :: "fan_in \<Rightarrow> m_event list \<Rightarrow> m_action list \<times> fan_in option" where
  "manager_requests d [] = ([], None)"
| "manager_requests d (RequestsClosed # es) = ([], Some d)"
| "manager_requests d (CloseRaised # es) = ([], Some d)"
| "manager_requests d (Request name inp w dl # es) =
     (case handle_request d name inp w of
        (d', as, err) \<Rightarrow>
          (case dl of
             ResultTaken \<Rightarrow>
               (as @ ResultSent err # fst (manager_requests d' es), snd (manager_requests d' es))
           | CloseOnDeliver \<Rightarrow> (as @ [ResultChanClosed], Some d')))"

text \<open>The deferred function: a first \<^verbatim>\<open>range\<close> over \<^verbatim>\<open>d.inputs\<close>, in the
  order \<open>r1\<close>, calls \<^verbatim>\<open>CloseAsync\<close> on every input; a second one, in the order
  \<open>r2\<close>, calls \<^verbatim>\<open>removeInput(key, time.Second)\<close> for every label again and
  again until it returns nil (an entry is deleted only when it is the one being visited,
  so the second loop visits every label the map held when the loop began); then the two
  closes.\<close>

fun remove_until_done ::
  "fan_in \<Rightarrow> label \<Rightarrow> wait_outcome list \<Rightarrow> m_action list \<times> (fan_in \<times> wait_outcome list) option" where
  "remove_until_done d key [] = ([], None)"
| "remove_until_done d key (w # ws) =
     (case removeInput d key w of
        (d', as, None) \<Rightarrow> (as, Some (d', ws))
      | (d', as, Some e) \<Rightarrow>
          (as @ fst (remove_until_done d' key ws), snd (remove_until_done d' key ws)))"

fun remove_all :: "fan_in \<Rightarrow> label list \<Rightarrow> wait_outcome list \<Rightarrow> m_action list \<times> fan_in option" where
  "remove_all d [] ws = ([], Some d)"
| "remove_all d (key # keys) ws =
     (case remove_until_done d key ws of
        (as, None) \<Rightarrow> (as, None)
      | (as, Some (d', ws')) \<Rightarrow>
          (as @ fst (remove_all d' keys ws'), snd (remove_all d' keys ws')))"

definition manager_deferred ::
  "range_order \<Rightarrow> range_order \<Rightarrow> fan_in \<Rightarrow> wait_outcome list \<Rightarrow> m_action list" where
  "manager_deferred r1 r2 d ws =
     map InputCloseAsync (map snd (r1 (inputs d))) @
     (case remove_all d (map fst (r2 (inputs d))) ws of
        (as, None) \<Rightarrow> as
      | (as, Some d') \<Rightarrow> as @ [CloseTransactionChan, CloseBrokerClosedChan])"

definition managerLoop ::
  "range_order \<Rightarrow> range_order \<Rightarrow> fan_in \<Rightarrow> m_event list \<Rightarrow> wait_outcome list
     \<Rightarrow> m_action list" where
  "managerLoop r1 r2 d es ws =
     (case manager_requests d es of
        (as, None) \<Rightarrow> as
      | (as, Some d') \<Rightarrow> as @ manager_deferred r1 r2 d' ws)"

text \<open>\<^verbatim>\<open>NewDynamicFanIn\<close>: empty maps, \<^verbatim>\<open>addInput\<close> for every initial input,
  then the manager loop is started. The initial inputs come as a Go map; \<open>init\<close>
  lists its entries in the order in which the \<^verbatim>\<open>range\<close> of the constructor
  visits them, so a label occurs once in it.\<close>

definition empty_fan_in :: fan_in where
  "empty_fan_in = \<lparr>inputs = [], inputClosedChans = [], nextChan = 0\<rparr>"

fun add_inputs :: "fan_in \<Rightarrow> (label \<times> dyn_input) list \<Rightarrow> fan_in \<times> m_action list" where
  "add_inputs d [] = (d, [])"
| "add_inputs d ((key, inp) # rest) =
     (case addInput d key inp of
        (d', as, err) \<Rightarrow> (fst (add_inputs d' rest), as @ snd (add_inputs d' rest)))"

definition NewDynamicFanIn ::
  "range_order \<Rightarrow> range_order \<Rightarrow> (label \<times> dyn_input) list \<Rightarrow> m_event list
     \<Rightarrow> wait_outcome list \<Rightarrow> m_action list" where
  "NewDynamicFanIn r1 r2 init es ws =
     (case add_inputs empty_fan_in init of
        (d, as) \<Rightarrow> as @ managerLoop r1 r2 d es ws)"

text \<open>\<^verbatim>\<open>SetInput\<close> on the caller's side: the read of \<^verbatim>\<open>d.running\<close>, the select
  that hands the request to the manager loop or sees \<^verbatim>\<open>d.closeChan\<close>, and the
  receive \<^verbatim>\<open>return <-resChan\<close>. A receive from a closed channel yields the zero
  value, which for \<^verbatim>\<open>error\<close> is \<^verbatim>\<open>nil\<close>.\<close>

datatype chan_state = Sent result | Closed

definition receive_result :: "chan_state \<Rightarrow> result" where
  "receive_result s = (case s of Sent r \<Rightarrow> r | Closed \<Rightarrow> None)"

datatype submit_outcome = NotRunningAnyMore | CloseOnSubmit | Submitted

text \<open>What the manager loop does to the request's result channel.\<close>

definition result_chan :: "result \<Rightarrow> deliver_outcome \<Rightarrow> chan_state" where
  "result_chan err dl = (case dl of ResultTaken \<Rightarrow> Sent err | CloseOnDeliver \<Rightarrow> Closed)"

definition SetInput ::
  "fan_in \<Rightarrow> submit_outcome \<Rightarrow> label \<Rightarrow> dyn_input option \<Rightarrow> wait_outcome \<Rightarrow> deliver_outcome \<Rightarrow> result" where
  "SetInput d sub ident inp w dl =
     (case sub of
        NotRunningAnyMore \<Rightarrow> Some ErrTypeClosed
      | CloseOnSubmit \<Rightarrow> Some ErrTypeClosed
      | Submitted \<Rightarrow>
          (case handle_request d ident inp w of
             (d', as, err) \<Rightarrow> receive_result (result_chan err dl)))"

text \<open>The outcomes in which the manager loop takes the close signal.\<close>

fun is_close :: "m_event \<Rightarrow> bool" where
  "is_close CloseRaised = True"
| "is_close (Request name inp w CloseOnDeliver) = True"
| "is_close _ = False"

text \<open>The invariant of the manager loop: the two maps have the same labels, and every
  forwarder launched so far either has been seen to close its done channel or is the one
  whose done channel the map holds under its label.\<close>

definition forwarders_tracked :: "fan_in \<Rightarrow> m_action list \<Rightarrow> bool" where
  "forwarders_tracked d as \<longleftrightarrow>
     (\<forall>k. (map_of (inputs d) k = None) = (map_of (inputClosedChans d) k = None))
     \<and> (\<forall>l i c. GoForwarder l i c \<in> set as \<longrightarrow>
           DoneObserved l c \<in> set as \<or> map_of (inputClosedChans d) l = Some c)"

text \<open>
  One add/remove cycle of a label: \<^verbatim>\<open>addInput\<close>, the forwarder it launches, run
  on the outcomes \<open>fes\<close>, and a \<^verbatim>\<open>removeInput\<close> of the label. Nothing is ever
  sent on a done channel, so the select of \<^verbatim>\<open>removeInput\<close> can receive from the
  channel stored under the label only once that channel is closed, and only the forwarder
  that was started with a channel closes it; until then only the timer can fire.
\<close>

definition launched :: "m_action list \<Rightarrow> f_event list \<Rightarrow> f_action list" where
  "launched as fes =
     concat (map (\<lambda>a. case a of GoForwarder l i c \<Rightarrow> forwarder l c fes | _ \<Rightarrow> []) as)"

definition done_wait :: "fan_in \<Rightarrow> label \<Rightarrow> f_action list \<Rightarrow> wait_outcome \<Rightarrow> wait_outcome" where
  "done_wait d l ftr w =
     (case map_of (inputClosedChans d) l of
        Some c \<Rightarrow> (if CloseDone c \<in> set ftr then w else TimerFired)
      | None \<Rightarrow> TimerFired)"

text \<open>The actions of the manager loop, the actions of the forwarder, the broker state
  after the removal and the result of the removal.\<close>

definition add_remove_cycle ::
  "fan_in \<Rightarrow> label \<Rightarrow> dyn_input \<Rightarrow> f_event list \<Rightarrow> wait_outcome
     \<Rightarrow> m_action list \<times> f_action list \<times> fan_in \<times> result" where
  "add_remove_cycle d l inp fes w =
     (case addInput d l inp of
        (d1, as1, e1) \<Rightarrow>
          (case removeInput d1 l (done_wait d1 l (launched as1 fes) w) of
             (d2, as2, r) \<Rightarrow> (as1 @ as2, launched as1 fes, d2, r)))"

subsection \<open>Retry (internal/old/output/retry.go)\<close>

text \<open>
  The backoff policy is built by \<^verbatim>\<open>conf.Retry.GetCtor()\<close> (package
  \<^verbatim>\<open>retries\<close>, over the library \<^verbatim>\<open>backoff\<close>; neither is among the sources),
  so it is a parameter: \<open>backoffCtor\<close> gives a new policy state, and
  \<open>NextBackOff\<close> maps a state and what the policy reads from outside (its clock, its
  random source) to the next interval, in milliseconds, or to \<open>None\<close> for
  \<^verbatim>\<open>backoff.Stop\<close>, and to the next state.
\<close>

record 'b retry_conf =
  backoffCtor :: 'b
  NextBackOff :: "'b \<Rightarrow> nat \<Rightarrow> nat option \<times> 'b"


text \<open>A policy to run the wrapper with: \<open>k\<close> retries, 100 ms apart, then
  \<^verbatim>\<open>Stop\<close>. Its state counts the retries granted.\<close>

definition counting_backoff :: "nat \<Rightarrow> nat retry_conf" where
  "counting_backoff k =
     \<lparr>backoffCtor = 0,
      NextBackOff = (\<lambda>tries r. if k \<le> tries then (None, tries) else (Some 100, Suc tries))\<rparr>"

datatype r_action =
    Load int
  | Consume transaction
  | Downstream batch chan
  | Go transaction chan
  | LoopReturn
  | IncErrLooped
  | BackoffStop
  | BackoffWait nat
  | UpstreamAck chan result
  | HandlerDone
  | DecErrLooped
  | TryInterrupt

subsubsection \<open>The goroutine started for each forwarded transaction\<close>

text \<open>
  One iteration of its loop meets: \<^verbatim>\<open>r.shutSig.ShouldCloseAtLeisure()\<close> in the loop
  condition; the select that receives the downstream result from \<^verbatim>\<open>resChan\<close> or
  sees the close signal; on an error result \<^verbatim>\<open>backOff.NextBackOff()\<close> with the
  policy's reading; and, unless the policy stops, the select that waits the interval or
  sees the close signal and the select that resends on \<^verbatim>\<open>r.transactionsOut\<close> or
  sees the close signal.
\<close>

datatype resend = Resent | CloseOnBackoffWait | CloseOnResend

datatype h_event =
    CloseAtCondition
  | CloseOnResult
  | ResultNil
  | ResultErr error nat resend

text \<open>How the loop ends: it leaves the loop with \<^verbatim>\<open>resOut\<close> and goes on to
  \<^verbatim>\<open>ts.Ack(ctx, resOut)\<close>, or the goroutine returns from inside the loop, or it is
  blocked; the boolean is \<^verbatim>\<open>inErrLoop\<close>.\<close>

datatype h_exit = ToAck result bool | Return bool | Blocked

definition send_failed :: error where
  "send_failed = ErrorsNew ''message failed to reach a target destination''"

text \<open>The loop, for the inbound transaction \<open>ts\<close> and the result channel \<open>c\<close> the
  goroutine was started with; \<open>bo\<close> is \<^verbatim>\<open>backOff\<close>, \<open>None\<close> while it is nil.
  \<^verbatim>\<open>resOut\<close> is nil until it is assigned right before a \<^verbatim>\<open>break\<close>.\<close>

fun handler_loop ::
  "'b retry_conf \<Rightarrow> transaction \<Rightarrow> chan \<Rightarrow> bool \<Rightarrow> 'b option \<Rightarrow> h_event list
     \<Rightarrow> r_action list \<times> h_exit" where
  "handler_loop cf ts c inErr bo [] = ([], Blocked)"
| "handler_loop cf ts c inErr bo (CloseAtCondition # es) = ([], ToAck None inErr)"
| "handler_loop cf ts c inErr bo (CloseOnResult # es) = ([], Return inErr)"
| "handler_loop cf ts c inErr bo (ResultNil # es) = ([], ToAck None inErr)"
| "handler_loop cf ts c inErr bo (ResultErr e rd rs # es) =
     (let enter = (if inErr then [] else [IncErrLooped]);
          b = (case bo of None \<Rightarrow> backoffCtor cf | Some b \<Rightarrow> b)
      in case NextBackOff cf b rd of
           (None, b') \<Rightarrow> (enter @ [BackoffStop], ToAck (Some send_failed) True)
         | (Some dur, b') \<Rightarrow>
             (case rs of
                CloseOnBackoffWait \<Rightarrow> (enter @ [BackoffWait dur], Return True)
              | CloseOnResend \<Rightarrow> (enter @ [BackoffWait dur], Return True)
              | Resent \<Rightarrow>
                  (enter @ BackoffWait dur # Downstream (Payload ts) c #
                     fst (handler_loop cf ts c True (Some b') es),
                   snd (handler_loop cf ts c True (Some b') es))))"

text \<open>The deferred function of the goroutine.\<close>

definition handler_deferred :: "bool \<Rightarrow> r_action list" where
  "handler_deferred inErr = HandlerDone # (if inErr then [DecErrLooped, TryInterrupt] else [])"

text \<open>The goroutine: the loop, then \<^verbatim>\<open>ts.Ack(ctx, resOut)\<close> with the context that
  the close signal cancels, then the deferred function.\<close>

definition handler ::
  "'b retry_conf \<Rightarrow> transaction \<Rightarrow> chan \<Rightarrow> h_event list \<Rightarrow> ack_outcome \<Rightarrow> r_action list" where
  "handler cf ts c es ack =
     (case handler_loop cf ts c False None es of
        (as, Blocked) \<Rightarrow> as
      | (as, Return inErr) \<Rightarrow> as @ handler_deferred inErr
      | (as, ToAck r inErr) \<Rightarrow>
          (if ack = AckBlocked then as
           else as @ map (\<lambda>(c, r). UpstreamAck c r) (Ack ts ack r) @ handler_deferred inErr))"

subsubsection \<open>The consuming loop\<close>

text \<open>
  The points at which \<^verbatim>\<open>Retry.loop\<close> waits or reads shared state: the loop
  condition (\<^verbatim>\<open>ShouldCloseAtLeisure\<close>), the read of \<^verbatim>\<open>errLooped\<close> that guards
  the inner loop, the select of the inner loop (interrupt, 100 ms tick, close signal), the
  select that receives from \<^verbatim>\<open>r.transactionsIn\<close>, and the select that sends the
  first downstream transaction on \<^verbatim>\<open>r.transactionsOut\<close>.
\<close>

datatype loop_pc = AtCondition | AtGate | AtPause | AtReceive | AtSend transaction chan

datatype l_event =
    ShouldClose bool
  | Loaded int
  | Interrupted
  | Ticked
  | CloseSignal
  | Inbound transaction
  | InboundShut
  | Taken

text \<open>The loop from the point \<open>pc\<close>; \<open>c\<close> is the next unused channel number, which
  \<^verbatim>\<open>rChan := make(chan error)\<close> takes. An outcome that does not belong to the point
  the loop is at never arrives there: the loop stays blocked.\<close>

fun retry_loop :: "loop_pc \<Rightarrow> chan \<Rightarrow> l_event list \<Rightarrow> r_action list" where
  "retry_loop pc c [] = []"
| "retry_loop AtCondition c (ShouldClose b # es) =
     (if b then [LoopReturn] else retry_loop AtGate c es)"
| "retry_loop AtGate c (Loaded v # es) =
     Load v # (if 0 < v then retry_loop AtPause c es else retry_loop AtReceive c es)"
| "retry_loop AtPause c (Interrupted # es) = retry_loop AtGate c es"
| "retry_loop AtPause c (Ticked # es) = retry_loop AtGate c es"
| "retry_loop AtPause c (CloseSignal # es) = [LoopReturn]"
| "retry_loop AtReceive c (Inbound ts # es) = Consume ts # retry_loop (AtSend ts c) (Suc c) es"
| "retry_loop AtReceive c (InboundShut # es) = [LoopReturn]"
| "retry_loop AtReceive c (CloseSignal # es) = [LoopReturn]"
| "retry_loop (AtSend ts r) c (Taken # es) =
     Downstream (Payload ts) r # Go ts r # retry_loop AtCondition c es"
| "retry_loop (AtSend ts r) c (CloseSignal # es) = [LoopReturn]"
| "retry_loop pc c (e # es) = []"

text \<open>Everything the wrapper does for one inbound transaction whose first send the
  downstream takes: the consuming loop receives it, makes the result channel \<open>c\<close>, sends
  the first downstream transaction and starts the goroutine.\<close>

definition retry_transaction ::
  "'b retry_conf \<Rightarrow> transaction \<Rightarrow> chan \<Rightarrow> h_event list \<Rightarrow> ack_outcome \<Rightarrow> r_action list" where
  "retry_transaction cf ts c es ack =
     Consume ts # Downstream (Payload ts) c # Go ts c # handler cf ts c es ack"

fun downstreams :: "r_action list \<Rightarrow> (batch \<times> chan) list" where
  "downstreams [] = []"
| "downstreams (Downstream p c # as) = (p, c) # downstreams as"
| "downstreams (a # as) = downstreams as"



fun started :: "r_action list \<Rightarrow> (transaction \<times> chan) list" where
  "started [] = []"
| "started (Go ts c # as) = (ts, c) # started as"
| "started (a # as) = started as"








subsubsection \<open>The consuming loop and its goroutines together\<close>

text \<open>
  The consuming loop and the goroutines it starts run concurrently and share the counter
  \<^verbatim>\<open>errLooped\<close>. A joint execution is an interleaving of their actions: the actions
  of the loop, in order, are the ones its code performs on its outcomes; the actions of
  the \<open>k\<close>-th goroutine are the ones the goroutine performs for the \<open>k\<close>-th transaction
  and channel the loop started it with; a goroutine acts only after the loop's
  \<^verbatim>\<open>go\<close> statement that starts it; and every read of \<^verbatim>\<open>errLooped\<close> by the
  loop returns what the increments and decrements before it in the interleaving add up to.
\<close>

datatype who = ConsumingLoop | Goroutine nat

definition acts_of :: "who \<Rightarrow> (who \<times> r_action) list \<Rightarrow> r_action list" where
  "acts_of w g = map snd (filter (\<lambda>p. fst p = w) g)"

text \<open>The value of \<^verbatim>\<open>errLooped\<close> after an interleaving that starts with the value
  \<open>v\<close>.\<close>

fun errLooped_after :: "int \<Rightarrow> (who \<times> r_action) list \<Rightarrow> int" where
  "errLooped_after v [] = v"
| "errLooped_after v ((w, IncErrLooped) # g) = errLooped_after (v + 1) g"
| "errLooped_after v ((w, DecErrLooped) # g) = errLooped_after (v - 1) g"
| "errLooped_after v (p # g) = errLooped_after v g"

fun loads_agree :: "int \<Rightarrow> (who \<times> r_action) list \<Rightarrow> bool" where
  "loads_agree v [] = True"
| "loads_agree v ((w, Load x) # g) = (x = v \<and> loads_agree v g)"
| "loads_agree v ((w, IncErrLooped) # g) = loads_agree (v + 1) g"
| "loads_agree v ((w, DecErrLooped) # g) = loads_agree (v - 1) g"
| "loads_agree v (p # g) = loads_agree v g"

fun starts_in_order :: "nat \<Rightarrow> (who \<times> r_action) list \<Rightarrow> bool" where
  "starts_in_order n [] = True"
| "starts_in_order n ((ConsumingLoop, Go ts c) # g) = starts_in_order (Suc n) g"
| "starts_in_order n ((ConsumingLoop, a) # g) = starts_in_order n g"
| "starts_in_order n ((Goroutine k, a) # g) = (k < n \<and> starts_in_order n g)"

fun goroutines_agree ::
  "'b retry_conf \<Rightarrow> nat \<Rightarrow> (transaction \<times> chan) list \<Rightarrow> (h_event list \<times> ack_outcome) list
     \<Rightarrow> (who \<times> r_action) list \<Rightarrow> bool" where
  "goroutines_agree cf k [] [] g = True"
| "goroutines_agree cf k ((ts, c) # sts) ((es, ack) # hs) g =
     (acts_of (Goroutine k) g = handler cf ts c es ack \<and> goroutines_agree cf (Suc k) sts hs g)"
| "goroutines_agree cf k sts hs g = False"

definition joint_run ::
  "'b retry_conf \<Rightarrow> l_event list \<Rightarrow> (h_event list \<times> ack_outcome) list
     \<Rightarrow> (who \<times> r_action) list \<Rightarrow> bool" where
  "joint_run cf ls hs g \<longleftrightarrow>
     acts_of ConsumingLoop g = retry_loop AtCondition 0 ls
     \<and> goroutines_agree cf 0 (started (retry_loop AtCondition 0 ls)) hs g
     \<and> starts_in_order 0 g
     \<and> loads_agree 0 g"

text \<open>The loop consumes an inbound transaction at a moment at which \<^verbatim>\<open>errLooped\<close>
  is positive.\<close>

fun consumes_while_retrying :: "int \<Rightarrow> (who \<times> r_action) list \<Rightarrow> bool" where
  "consumes_while_retrying v [] = False"
| "consumes_while_retrying v ((w, Consume ts) # g) = (0 < v \<or> consumes_while_retrying v g)"
| "consumes_while_retrying v ((w, IncErrLooped) # g) = consumes_while_retrying (v + 1) g"
| "consumes_while_retrying v ((w, DecErrLooped) # g) = consumes_while_retrying (v - 1) g"
| "consumes_while_retrying v (p # g) = consumes_while_retrying v g"

section \<open>Proofs\<close>

subsection \<open>RoundRobin: the cursor\<close>

lemma forwards_deferred: "forwards (rr_deferred n) = []"
proof -
  have "forwards (map CloseOutputChan xs @ [CloseAllOutputs, CloseClosedChan]) = []" for xs
    by (induction xs) simp_all
  then show ?thesis by (simp add: rr_deferred_def)
qed

lemma forwards_iterate:
  assumes "c < n" and "\<not> (\<exists>e \<in> set rest. is_received e)"
  shows "forwards (rr_iterate n c (map (\<lambda>t. Received t Accepted) ts @ rest)) =
         map (\<lambda>k. ((c + k) mod n, ts ! k)) [0..<length ts]"
  using assms
proof (induction ts arbitrary: c)
  case Nil
  then show ?case
    by (cases rest; cases "hd rest") (auto simp: forwards_deferred)
next
  case (Cons t ts)
  let ?c' = "if n \<le> c + 1 then 0 else c + 1"
  have c': "?c' < n"
    using Cons.prems(1) by auto
  have md: "(?c' + k) mod n = (c + Suc k) mod n" for k
  proof (cases "n \<le> c + 1")
    case True
    with Cons.prems(1) have "c + Suc k = n + k" by simp
    then have "(c + Suc k) mod n = k mod n" by (simp only: mod_add_self1)
    with True show ?thesis by simp
  next
    case False
    then show ?thesis by simp
  qed
  have "forwards (rr_iterate n c (map (\<lambda>t. Received t Accepted) (t # ts) @ rest)) =
        (c, t) # map (\<lambda>k. ((?c' + k) mod n, ts ! k)) [0..<length ts]"
    using Cons.prems Cons.IH[OF c'] by simp
  also have "\<dots> = (c, t) # map (\<lambda>k. ((c + Suc k) mod n, ts ! k)) [0..<length ts]"
    by (simp only: md)
  also have "\<dots> = map (\<lambda>k. ((c + k) mod n, (t # ts) ! k)) (0 # map Suc [0..<length ts])"
    using Cons.prems(1) by (simp add: comp_def)
  also have "0 # map Suc [0..<length ts] = [0..<length (t # ts)]"
    by (simp add: upt_conv_Cons map_Suc_upt del: upt_Suc)
  finally show ?case .
qed

lemma ceil_count:
  assumes "0 < n"
  shows "(j < nat \<lceil>(real M - real i) / real n\<rceil>) = (i + j * n < M)"
proof -
  have "(j < nat \<lceil>(real M - real i) / real n\<rceil>) = (int j < \<lceil>(real M - real i) / real n\<rceil>)"
    by (simp add: zless_nat_eq_int_zless)
  also have "\<dots> = (real j < (real M - real i) / real n)"
    by (simp add: less_ceiling_iff)
  also have "\<dots> = (real j * real n < real M - real i)"
    using assms by (simp add: pos_less_divide_eq)
  also have "\<dots> = (real (i + j * n) < real M)"
    by (simp add: algebra_simps)
  also have "\<dots> = (i + j * n < M)"
    by (simp only: of_nat_less_iff)
  finally show ?thesis .
qed

lemma residue_positions:
  assumes "0 < n" and "i < n"
  shows "filter (\<lambda>k. k mod n = i) [0..<M] =
         map (\<lambda>j. i + j * n) [0..<nat \<lceil>(real M - real i) / real n\<rceil>]"
    (is "?L = ?R")
proof (rule sorted_distinct_set_unique)
  show "sorted ?L" by (simp add: sorted_wrt_filter)
  show "distinct ?L" by simp
  show "sorted ?R" using assms(1)
    by (auto simp: sorted_map intro!: sorted_wrt_mono_rel[of _ "(<)" "\<lambda>a b. i + a * n \<le> i + b * n"])
  show "distinct ?R" using assms(1) by (auto simp: distinct_map inj_on_def)
  show "set ?L = set ?R"
  proof (intro set_eqI iffI)
    fix x assume "x \<in> set ?L"
    then have x: "x < M" "x mod n = i" by auto
    then have eq: "x = i + (x div n) * n" by (metis add.commute div_mult_mod_eq)
    then have "x div n < nat \<lceil>(real M - real i) / real n\<rceil>"
      using x(1) ceil_count[OF assms(1), of "x div n" M i] by simp
    with eq show "x \<in> set ?R" by auto
  next
    fix x assume "x \<in> set ?R"
    then obtain j where j: "j < nat \<lceil>(real M - real i) / real n\<rceil>" "x = i + j * n" by auto
    then have "x < M" using ceil_count[OF assms(1), of j M i] by simp
    moreover have "x mod n = i" using j(2) assms(2) by simp
    ultimately show "x \<in> set ?L" by simp
  qed
qed

lemma delivered_positions:
  assumes "0 < n" and "i < n"
    and fw: "forwards as = map (\<lambda>k. (k mod n, ts ! k)) [0..<length ts]"
  shows "delivered i as =
         map (\<lambda>j. ts ! (i + j * n)) [0..<nat \<lceil>(real (length ts) - real i) / real n\<rceil>]"
proof -
  have "delivered i as = map (\<lambda>k. ts ! k) (filter (\<lambda>k. k mod n = i) [0..<length ts])"
    by (simp add: delivered_def fw filter_map comp_def)
  then show ?thesis
    by (simp add: residue_positions[OF assms(1,2)] comp_def)
qed

text \<open>
  Claim C2. A RoundRobin broker over \<open>n \<ge> 1\<close> outputs that takes the transactions
  \<open>ts\<close> from its inbound channel, before the channel closes or the broker is closed,
  forwards the \<open>k\<close>-th of them, unchanged (the same payload and the same acknowledgement
  channel), to output \<open>k mod n\<close> and to no other: the cursor starts at output 0 and
  advances by one modulo \<open>n\<close>. Output \<open>i\<close> therefore receives the transactions at
  positions \<open>i\<close>, \<open>i + n\<close>, \<open>i + 2n\<close>, ... in inbound order, which are
  \<open>\<lceil>(M - i) / n\<rceil>\<close> of the \<open>M\<close> transactions.
\<close>

theorem round_robin_dispatch:
  assumes "0 < n" and "\<not> (\<exists>e \<in> set rest. is_received e)"
  shows "forwards (rr_loop n (rr_inbound ts rest)) =
           map (\<lambda>k. (k mod n, ts ! k)) [0..<length ts]
       \<and> (\<forall>i<n. delivered i (rr_loop n (rr_inbound ts rest)) =
             map (\<lambda>j. ts ! (i + j * n)) [0..<nat \<lceil>(real (length ts) - real i) / real n\<rceil>]
           \<and> int (length (delivered i (rr_loop n (rr_inbound ts rest)))) =
             \<lceil>(real (length ts) - real i) / real n\<rceil>)"
proof -
  have fw: "forwards (rr_loop n (rr_inbound ts rest)) =
            map (\<lambda>k. (k mod n, ts ! k)) [0..<length ts]"
    using forwards_iterate[OF assms(1) assms(2), of ts] by (simp add: rr_loop_def rr_inbound_def)
  have "int (length (delivered i (rr_loop n (rr_inbound ts rest)))) =
        \<lceil>(real (length ts) - real i) / real n\<rceil>" if "i < n" for i
  proof -
    have "- 1 < (real (length ts) - real i) / real n"
      using that assms(1) by (simp add: pos_less_divide_eq)
    then have "0 \<le> \<lceil>(real (length ts) - real i) / real n\<rceil>"
      by (simp add: le_ceiling_iff)
    then show ?thesis
      by (simp add: delivered_positions[OF assms(1) that fw])
  qed
  then show ?thesis
    using fw delivered_positions[OF assms(1) _ fw] by simp
qed

theorem round_robin_dispatch_witness:
  "(0::nat) < 3 \<and> \<not> (\<exists>e \<in> set [InboundClosed]. is_received e)
   \<and> delivered 1 (rr_loop 3 (rr_inbound
        [\<lparr>Payload = [''a''], responseChan = 10\<rparr>, \<lparr>Payload = [''b''], responseChan = 11\<rparr>,
         \<lparr>Payload = [''c''], responseChan = 12\<rparr>, \<lparr>Payload = [''d''], responseChan = 13\<rparr>,
         \<lparr>Payload = [''e''], responseChan = 14\<rparr>] [InboundClosed]))
     = [\<lparr>Payload = [''b''], responseChan = 11\<rparr>, \<lparr>Payload = [''e''], responseChan = 14\<rparr>]"
proof -
  have h1: "(0::nat) < 3" by simp
  have h2: "\<not> (\<exists>e \<in> set [InboundClosed]. is_received e)" by simp
  have c: "nat \<lceil>(real (5::nat) - real (1::nat)) / real (3::nat)\<rceil> = 2" by simp
  show ?thesis
    using h1 h2 round_robin_dispatch[OF h1 h2,
        of "[\<lparr>Payload = [''a''], responseChan = 10\<rparr>, \<lparr>Payload = [''b''], responseChan = 11\<rparr>,
         \<lparr>Payload = [''c''], responseChan = 12\<rparr>, \<lparr>Payload = [''d''], responseChan = 13\<rparr>,
         \<lparr>Payload = [''e''], responseChan = 14\<rparr>]"] c
    by (simp add: upt_conv_Cons)
qed

subsection \<open>RoundRobin: closing the output channels\<close>

lemma count_close_upt:
  "count_list (map CloseOutputChan [0..<n]) (CloseOutputChan i) = (if i < n then 1 else 0)"
  by (induction n) auto

lemma count_deferred:
  "count_list (rr_deferred n) (CloseOutputChan i) = (if i < n then 1 else 0)"
  by (simp add: rr_deferred_def count_close_upt)

lemma deferred_split:
  assumes "rr_deferred n = pre @ CloseOutputChan i # post"
  shows "i < n \<and> CloseOutputChan i \<notin> set pre \<and> CloseOutputChan i \<notin> set post
       \<and> (\<forall>j t. Forward j t \<notin> set post)"
proof -
  have "count_list (pre @ CloseOutputChan i # post) (CloseOutputChan i) = (if i < n then 1 else 0)"
    using count_deferred[of n i] assms by simp
  then have "i < n" and c: "count_list pre (CloseOutputChan i) = 0 \<and> count_list post (CloseOutputChan i) = 0"
    by (auto split: if_splits)
  have "set post \<subseteq> set (rr_deferred n)" using assms by auto
  then have "\<forall>j t. Forward j t \<notin> set post" by (auto simp: rr_deferred_def)
  with \<open>i < n\<close> c show ?thesis by (simp add: count_list_0_iff)
qed

lemma rr_iterate_close:
  assumes "rr_iterate n c es = pre @ CloseOutputChan i # post" and "c < n"
  shows "i < n \<and> CloseOutputChan i \<notin> set pre \<and> CloseOutputChan i \<notin> set post
       \<and> (\<forall>j t. Forward j t \<notin> set post) \<and> list_ex rr_stop es"
  using assms
proof (induction es arbitrary: c pre)
  case Nil
  then show ?case by simp
next
  case (Cons e es)
  show ?case
  proof (cases "\<exists>t. e = Received t Accepted")
    case False
    then have stop: "rr_stop e" by (cases e rule: rr_stop.cases) auto
    with Cons.prems have "rr_deferred n = pre @ CloseOutputChan i # post"
      by (cases e rule: rr_stop.cases) auto
    from deferred_split[OF this] stop show ?thesis by simp
  next
    case True
    then obtain t where e: "e = Received t Accepted" by blast
    let ?c' = "if n \<le> c + 1 then 0 else c + 1"
    have c': "?c' < n" using Cons.prems(2) by auto
    from Cons.prems e obtain pre' where pre: "pre = Forward c t # pre'"
      and it: "rr_iterate n ?c' es = pre' @ CloseOutputChan i # post"
      by (auto simp: Cons_eq_append_conv)
    from Cons.IH[OF it c'] pre show ?thesis by simp
  qed
qed

lemma rr_iterate_close_count:
  assumes "CloseClosedChan \<in> set (rr_iterate n c es)" and "c < n" and "i < n"
  shows "count_list (rr_iterate n c es) (CloseOutputChan i) = 1"
  using assms
proof (induction es arbitrary: c)
  case Nil
  then show ?case by simp
next
  case (Cons e es)
  show ?case
  proof (cases "\<exists>t. e = Received t Accepted")
    case False
    with Cons.prems show ?thesis
      by (cases e rule: rr_stop.cases) (auto simp: count_deferred)
  next
    case True
    then obtain t where e: "e = Received t Accepted" by blast
    let ?c' = "if n \<le> c + 1 then 0 else c + 1"
    have c': "?c' < n" using Cons.prems(2) by auto
    from Cons.prems e have "CloseClosedChan \<in> set (rr_iterate n ?c' es)" by simp
    from Cons.IH[OF this c' Cons.prems(3)] e Cons.prems(2) show ?thesis by simp
  qed
qed

lemma rr_iterate_close_exact:
  assumes "c < n"
  shows "count_list (rr_iterate n c es) (CloseOutputChan i) =
           (if list_ex rr_stop es \<and> i < n then 1 else 0)"
  using assms
proof (induction es arbitrary: c)
  case Nil
  then show ?case by simp
next
  case (Cons e es)
  show ?case
  proof (cases "\<exists>t. e = Received t Accepted")
    case False
    with Cons.prems show ?thesis
      by (cases e rule: rr_stop.cases) (auto simp: count_deferred)
  next
    case True
    then obtain t where e: "e = Received t Accepted" by blast
    let ?c' = "if n \<le> c + 1 then 0 else c + 1"
    have c': "?c' < n" using Cons.prems by auto
    from Cons.IH[OF c'] e Cons.prems show ?thesis by simp
  qed
qed

lemma rr_iterate_no_output:
  "CloseOutputChan i \<notin> set (rr_iterate 0 c es)"
proof (cases es)
  case Nil
  then show ?thesis by simp
next
  case (Cons e es')
  then show ?thesis by (cases e) (auto simp: rr_deferred_def)
qed

lemma rr_loop_close:
  assumes "rr_loop n es = pre @ CloseOutputChan i # post"
  shows "i < n \<and> CloseOutputChan i \<notin> set pre \<and> CloseOutputChan i \<notin> set post
       \<and> (\<forall>j t. Forward j t \<notin> set post) \<and> list_ex rr_stop es"
proof (cases "n = 0")
  case True
  with assms rr_iterate_no_output[of i 0 es] show ?thesis
    by (auto simp: rr_loop_def)
next
  case False
  with assms rr_iterate_close[of n 0 es pre i post] show ?thesis
    by (simp add: rr_loop_def)
qed

lemma rr_loop_close_exact:
  "count_list (rr_loop n es) (CloseOutputChan i) = (if list_ex rr_stop es \<and> i < n then 1 else 0)"
proof (cases "n = 0")
  case True
  with rr_iterate_no_output[of i 0 es] show ?thesis
    by (simp add: rr_loop_def count_list_0_iff)
next
  case False
  with rr_iterate_close_exact[of 0 n es i] show ?thesis
    by (simp add: rr_loop_def)
qed

subsection \<open>FanOutSequential: index order\<close>

lemma fs_outputs_order:
  assumes "fst (fs_outputs n i p atts) = pre @ a # post"
  shows "(\<forall>c r. a \<noteq> Acknowledge c r) \<and> (\<forall>t. a \<noteq> Took t)
       \<and> (\<forall>m q. a = Dispatch m q \<longrightarrow> q = p \<and> i \<le> m \<and> m < n
             \<and> (\<forall>j. i \<le> j \<and> j < m \<longrightarrow> Reply j None \<in> set pre))"
  using assms
proof (induction n i p atts arbitrary: pre rule: fs_outputs.induct)
  case (1 n i p atts)
  show ?case
  proof (cases "n \<le> i")
    case True
    with "1.prems" show ?thesis by simp
  next
    case False
    note ni = this
    show ?thesis
    proof (cases atts)
      case Nil
      with ni "1.prems" show ?thesis by simp
    next
      case (Cons att rest)
      show ?thesis
      proof (cases att)
        case SendCancelled
        with ni Cons "1.prems" show ?thesis by simp
      next
        case ResultCancelled
        with ni Cons "1.prems" show ?thesis by (auto simp: Cons_eq_append_conv)
      next
        case (Failed e retry)
        show ?thesis
        proof (cases retry)
          case False
          with ni Cons Failed "1.prems" show ?thesis
            by (auto simp: Cons_eq_append_conv)
        next
          case True
          from ni Cons Failed True "1.prems"
          have eq: "Dispatch i p # Reply i (Some e) # fst (fs_outputs n i p rest) = pre @ a # post"
            by simp
          then consider "pre = []" "a = Dispatch i p"
            | "pre = [Dispatch i p]" "a = Reply i (Some e)"
            | pre' where "pre = Dispatch i p # Reply i (Some e) # pre'"
                "fst (fs_outputs n i p rest) = pre' @ a # post"
            by (auto simp: Cons_eq_append_conv)
          then show ?thesis
          proof cases
            case 1 with ni show ?thesis by simp
          next
            case 2 then show ?thesis by simp
          next
            case 3
            from "1.IH"(1)[OF ni Cons Failed True 3(2)] 3(1) show ?thesis by auto
          qed
        qed
      next
        case Succeeded
        from ni Cons Succeeded "1.prems"
        have eq: "Dispatch i p # Reply i None # fst (fs_outputs n (i + 1) p rest) = pre @ a # post"
          by simp
        then consider "pre = []" "a = Dispatch i p"
          | "pre = [Dispatch i p]" "a = Reply i None"
          | pre' where "pre = Dispatch i p # Reply i None # pre'"
              "fst (fs_outputs n (i + 1) p rest) = pre' @ a # post"
          by (auto simp: Cons_eq_append_conv)
        then show ?thesis
        proof cases
          case 1 with ni show ?thesis by simp
        next
          case 2 then show ?thesis by simp
        next
          case 3
          note ih = "1.IH"(3)[OF ni Cons Succeeded 3(2)]
          have "Reply j None \<in> set pre" if "a = Dispatch m q" "i \<le> j" "j < m" for m q j
          proof (cases "j = i")
            case True
            with 3(1) show ?thesis by simp
          next
            case False
            with that have "i + 1 \<le> j" by simp
            with ih that 3(1) show ?thesis by simp
          qed
          moreover have "q = p \<and> i \<le> m \<and> m < n" if "a = Dispatch m q" for m q
            using ih that by auto
          ultimately show ?thesis using ih by blast
        qed
      qed
    qed
  qed
qed

lemma fs_outputs_finished:
  assumes "snd (fs_outputs n i p atts) = Finished u" and "i \<le> j" and "j < n"
  shows "Reply j None \<in> set (fst (fs_outputs n i p atts))"
  using assms
proof (induction n i p atts rule: fs_outputs.induct)
  case (1 n i p atts)
  from "1.prems" have ni: "\<not> n \<le> i" by simp
  show ?case
  proof (cases atts)
    case Nil
    with ni "1.prems" show ?thesis by simp
  next
    case (Cons att rest)
    show ?thesis
    proof (cases att)
      case SendCancelled
      with ni Cons "1.prems" show ?thesis by simp
    next
      case ResultCancelled
      with ni Cons "1.prems" show ?thesis by simp
    next
      case (Failed e retry)
      with ni Cons "1.prems" have r: retry by (auto split: if_splits)
      with ni Cons Failed "1.prems" "1.IH"(1)[OF ni Cons Failed r] show ?thesis by simp
    next
      case Succeeded
      show ?thesis
      proof (cases "j = i")
        case True
        with ni Cons Succeeded show ?thesis by simp
      next
        case False
        with "1.prems" have "i + 1 \<le> j" by simp
        with ni Cons Succeeded "1.prems" "1.IH"(3)[OF ni Cons Succeeded] show ?thesis by simp
      qed
    qed
  qed
qed

lemma fs_transaction_trace:
  "fst (fs_transaction n ts atts ack) =
     Took ts # fst (fs_outputs n 0 (Payload ts) atts) @
       (case snd (fs_outputs n 0 (Payload ts) atts) of
          Finished u \<Rightarrow> map (\<lambda>(c, r). Acknowledge c r) (Ack ts ack None)
        | _ \<Rightarrow> [])"
  by (cases "fs_outputs n 0 (Payload ts) atts")
     (simp add: fs_transaction_def split: progress.splits)

lemma fs_sendLoop_transaction:
  "\<exists>rest. fs_sendLoop n (Transaction ts atts ack # its) = fst (fs_transaction n ts atts ack) @ rest"
  by (cases "fs_transaction n ts atts ack"; cases "snd (fs_transaction n ts atts ack)") auto

text \<open>
  Claim C3. In the actions FanOutSequential performs for one inbound transaction, a send
  to output \<open>m\<close> comes only after every output before \<open>m\<close> (in particular output
  \<open>m - 1\<close>) has answered with success on its result channel, and it carries the
  transaction's payload; a write to the inbound acknowledgement channel is a success
  (\<^verbatim>\<open>nil\<close>) and comes only after every one of the \<open>n\<close> outputs has answered with
  success.
\<close>

theorem fan_out_sequential_order:
  assumes "fst (fs_transaction n ts atts ack) = pre @ a # post"
  shows "(\<forall>m q. a = Dispatch m q \<longrightarrow>
            q = Payload ts \<and> m < n \<and> (\<forall>j<m. Reply j None \<in> set pre))
       \<and> (\<forall>c r. a = Acknowledge c r \<longrightarrow>
            c = responseChan ts \<and> r = None \<and> (\<forall>j<n. Reply j None \<in> set pre))"
proof -
  define as where "as = fst (fs_outputs n 0 (Payload ts) atts)"
  define acks where "acks = (case snd (fs_outputs n 0 (Payload ts) atts) of
          Finished u \<Rightarrow> map (\<lambda>(c, r). Acknowledge c r) (Ack ts ack None)
        | _ \<Rightarrow> [])"
  have "Took ts # as @ acks = pre @ a # post"
    using assms by (simp add: fs_transaction_trace as_def acks_def)
  then consider (took) "a = Took ts"
    | (mid) pre' post' where "pre = Took ts # pre'" "as = pre' @ a # post'"
    | (ack) pre' where "pre = Took ts # as @ pre'" "acks = pre' @ a # post"
    by (auto simp: Cons_eq_append_conv append_eq_append_conv2 append_eq_Cons_conv)
  then show ?thesis
  proof cases
    case took
    then show ?thesis by simp
  next
    case mid
    from fs_outputs_order[of n 0 "Payload ts" atts pre' a post'] mid
    show ?thesis by (auto simp: as_def)
  next
    case ack
    from ack(2) obtain u where fin: "snd (fs_outputs n 0 (Payload ts) atts) = Finished u"
      by (cases "snd (fs_outputs n 0 (Payload ts) atts)") (auto simp: acks_def)
    with ack(2) have a: "a = Acknowledge (responseChan ts) None"
      by (cases ack) (auto simp: acks_def Ack_def Cons_eq_append_conv)
    have "Reply j None \<in> set pre" if "j < n" for j
      using fs_outputs_finished[OF fin _ that] ack(1) by (simp add: as_def)
    with a show ?thesis by simp
  qed
qed

theorem fan_out_sequential_order_witness:
  "fst (fs_transaction 2 \<lparr>Payload = [''hello world''], responseChan = 7\<rparr>
         [Failed (ErrorsNew ''test'') True, Succeeded, Succeeded] AckDelivered)
     = [Took \<lparr>Payload = [''hello world''], responseChan = 7\<rparr>,
        Dispatch 0 [''hello world''], Reply 0 (Some (ErrorsNew ''test'')),
        Dispatch 0 [''hello world''], Reply 0 None,
        Dispatch 1 [''hello world''], Reply 1 None] @ Acknowledge 7 None # []
   \<and> Reply 0 None \<in> set
        [Took \<lparr>Payload = [''hello world''], responseChan = 7\<rparr>,
         Dispatch 0 [''hello world''], Reply 0 (Some (ErrorsNew ''test'')),
         Dispatch 0 [''hello world''], Reply 0 None,
         Dispatch 1 [''hello world''], Reply 1 None]
   \<and> Reply 1 None \<in> set
        [Took \<lparr>Payload = [''hello world''], responseChan = 7\<rparr>,
         Dispatch 0 [''hello world''], Reply 0 (Some (ErrorsNew ''test'')),
         Dispatch 0 [''hello world''], Reply 0 None,
         Dispatch 1 [''hello world''], Reply 1 None]"
proof -
  have run: "fst (fs_transaction 2 \<lparr>Payload = [''hello world''], responseChan = 7\<rparr>
         [Failed (ErrorsNew ''test'') True, Succeeded, Succeeded] AckDelivered)
     = [Took \<lparr>Payload = [''hello world''], responseChan = 7\<rparr>,
        Dispatch 0 [''hello world''], Reply 0 (Some (ErrorsNew ''test'')),
        Dispatch 0 [''hello world''], Reply 0 None,
        Dispatch 1 [''hello world''], Reply 1 None] @ Acknowledge 7 None # []"
    by (simp add: fs_transaction_def Ack_def)
  from fan_out_sequential_order[OF run] run show ?thesis by simp
qed

subsection \<open>DynamicFanIn: replacing an input\<close>

text \<open>
  Claim C4. \<^verbatim>\<open>SetInput\<close> with a non-nil input \<open>new\<close> under a label that already
  holds the input \<open>old\<close>. When the forwarder of \<open>old\<close> closes its done channel before
  the timeout, the manager loop first closes \<open>old\<close> and waits for it, and only then starts
  the forwarder of \<open>new\<close> and stores \<open>new\<close> under the label; the call returns nil.
  When the timeout fires first, the broker state is unchanged (the label still holds
  \<open>old\<close> and its done channel, \<open>new\<close> is not stored and no forwarder is started for
  it), and the manager loop hands \<^verbatim>\<open>ErrTimeout\<close> back, which \<^verbatim>\<open>SetInput\<close>
  returns. (The hand-over of the result when the close signal fires is claim C10.)
\<close>

theorem set_input_replace:
  assumes "map_of (inputs d) ident = Some old"
    and "map_of (inputClosedChans d) ident = Some c"
  shows "handle_request d ident (Some new) DoneClosed =
           (d\<lparr>inputs := AList.update ident new (AList.delete ident (inputs d)),
              inputClosedChans :=
                AList.update ident (nextChan d) (AList.delete ident (inputClosedChans d)),
              nextChan := Suc (nextChan d)\<rparr>,
            [InputCloseAsync old, DoneObserved ident c, GoForwarder ident new (nextChan d)],
            None)
       \<and> map_of (inputs (fst (handle_request d ident (Some new) DoneClosed))) ident = Some new
       \<and> SetInput d Submitted ident (Some new) DoneClosed ResultTaken = None
       \<and> handle_request d ident (Some new) TimerFired =
           (d, [InputCloseAsync old, RemoveTimedOut ident], Some ErrTimeout)
       \<and> SetInput d Submitted ident (Some new) TimerFired ResultTaken = Some ErrTimeout"
proof -
  have ok: "handle_request d ident (Some new) DoneClosed =
           (d\<lparr>inputs := AList.update ident new (AList.delete ident (inputs d)),
              inputClosedChans :=
                AList.update ident (nextChan d) (AList.delete ident (inputClosedChans d)),
              nextChan := Suc (nextChan d)\<rparr>,
            [InputCloseAsync old, DoneObserved ident c, GoForwarder ident new (nextChan d)],
            None)"
    using assms by (simp add: handle_request_def removeInput_def addInput_def)
  have timeout: "handle_request d ident (Some new) TimerFired =
           (d, [InputCloseAsync old, RemoveTimedOut ident], Some ErrTimeout)"
    using assms by (simp add: handle_request_def removeInput_def)
  have "map_of (inputs (fst (handle_request d ident (Some new) DoneClosed))) ident = Some new"
    by (simp add: ok update_conv')
  moreover have "SetInput d Submitted ident (Some new) DoneClosed ResultTaken = None"
    by (simp add: SetInput_def ok result_chan_def receive_result_def)
  moreover have "SetInput d Submitted ident (Some new) TimerFired ResultTaken = Some ErrTimeout"
    by (simp add: SetInput_def timeout result_chan_def receive_result_def)
  ultimately show ?thesis using ok timeout by simp
qed

theorem set_input_replace_witness:
  "map_of (inputs \<lparr>inputs = [(''first'', 1)], inputClosedChans = [(''first'', 0)], nextChan = 1\<rparr>)
       ''first'' = Some 1
   \<and> map_of (inputClosedChans
         \<lparr>inputs = [(''first'', 1)], inputClosedChans = [(''first'', 0)], nextChan = 1\<rparr>)
       ''first'' = Some 0
   \<and> handle_request \<lparr>inputs = [(''first'', 1)], inputClosedChans = [(''first'', 0)], nextChan = 1\<rparr>
        ''first'' (Some 2) TimerFired =
       (\<lparr>inputs = [(''first'', 1)], inputClosedChans = [(''first'', 0)], nextChan = 1\<rparr>,
        [InputCloseAsync 1, RemoveTimedOut ''first''], Some ErrTimeout)
   \<and> handle_request \<lparr>inputs = [(''first'', 1)], inputClosedChans = [(''first'', 0)], nextChan = 1\<rparr>
        ''first'' (Some 2) DoneClosed =
       (\<lparr>inputs = [(''first'', 2)], inputClosedChans = [(''first'', 1)], nextChan = 2\<rparr>,
        [InputCloseAsync 1, DoneObserved ''first'' 0, GoForwarder ''first'' 2 1], None)"
proof -
  have h1: "map_of (inputs \<lparr>inputs = [(''first'', 1)], inputClosedChans = [(''first'', 0)],
      nextChan = 1\<rparr>) ''first'' = Some 1" by simp
  have h2: "map_of (inputClosedChans \<lparr>inputs = [(''first'', 1)],
      inputClosedChans = [(''first'', 0)], nextChan = 1\<rparr>) ''first'' = Some 0" by simp
  from set_input_replace[OF h1 h2, of 2] h1 h2 show ?thesis by simp
qed

subsection \<open>DynamicFanIn: the result channel at shutdown\<close>

text \<open>
  Claim C10. When the manager loop has taken a \<^verbatim>\<open>SetInput\<close> request and, in the
  select that hands the result back, the close signal is taken instead, the loop closes
  the request's result channel and returns (its last action in the loop is that close, and
  nothing is sent on the channel), and \<^verbatim>\<open>SetInput\<close> returns nil, whatever the
  result of the request was: not \<^verbatim>\<open>ErrTypeClosed\<close>, and not the
  \<^verbatim>\<open>ErrTimeout\<close> of a removal that timed out.
\<close>

theorem set_input_nil_on_close:
  "manager_requests d (Request ident inp w CloseOnDeliver # es) =
     (fst (snd (handle_request d ident inp w)) @ [ResultChanClosed],
      Some (fst (handle_request d ident inp w)))
   \<and> result_chan (snd (snd (handle_request d ident inp w))) CloseOnDeliver = Closed
   \<and> SetInput d Submitted ident inp w CloseOnDeliver = None
   \<and> SetInput \<lparr>inputs = [(''first'', 1)], inputClosedChans = [(''first'', 0)], nextChan = 1\<rparr>
        Submitted ''first'' (Some 2) TimerFired ResultTaken = Some ErrTimeout
   \<and> SetInput \<lparr>inputs = [(''first'', 1)], inputClosedChans = [(''first'', 0)], nextChan = 1\<rparr>
        Submitted ''first'' (Some 2) TimerFired CloseOnDeliver = None"
  by (cases "handle_request d ident inp w")
     (simp add: SetInput_def result_chan_def receive_result_def handle_request_def
        removeInput_def)

theorem set_input_nil_on_close_witness:
  "SetInput \<lparr>inputs = [(''first'', 1)], inputClosedChans = [(''first'', 0)], nextChan = 1\<rparr>
     Submitted ''second'' (Some 2) DoneClosed CloseOnDeliver = None
   \<and> fst (manager_requests
        \<lparr>inputs = [(''first'', 1)], inputClosedChans = [(''first'', 0)], nextChan = 1\<rparr>
        [Request ''second'' (Some 2) DoneClosed CloseOnDeliver])
     = [GoForwarder ''second'' 2 1, ResultChanClosed]"
  using set_input_nil_on_close[of
      "\<lparr>inputs = [(''first'', 1)], inputClosedChans = [(''first'', 0)], nextChan = 1\<rparr>"
      "''second''" "Some 2" DoneClosed "[]"]
  by (simp add: handle_request_def addInput_def)

subsection \<open>DynamicFanIn: the hooks of a forwarder\<close>

lemma forwarding_no_add: "count_list (forwarding l c es) (OnAdd l') = 0"
  by (induction l c es rule: forwarding.induct) simp_all

lemma forwarding_remove_count:
  "count_list (forwarding l c es) (OnRemove l) = (if CloseDone c \<in> set (forwarding l c es) then 1 else 0)"
  by (induction l c es rule: forwarding.induct) simp_all

lemma forwarding_merge_before_remove:
  "forwarding l c es = pre @ Merge l' t # post \<Longrightarrow> OnRemove l \<notin> set pre \<and> CloseDone c \<notin> set pre"
proof (induction l c es arbitrary: pre rule: forwarding.induct)
  case (2 l c t' es)
  then show ?case by (cases pre) auto
next
  case (3 l c es)
  then show ?case by (auto simp: Cons_eq_append_conv)
next
  case (4 l c t' es)
  then show ?case by (auto simp: Cons_eq_append_conv)
qed simp

lemma add_remove_cycle_eq:
  "add_remove_cycle d l inp es w =
     (if w = DoneClosed \<and> CloseDone (nextChan d) \<in> set (forwarder l (nextChan d) es)
      then ([GoForwarder l inp (nextChan d), InputCloseAsync inp, DoneObserved l (nextChan d)],
            forwarder l (nextChan d) es,
            d\<lparr>inputs := AList.delete l (AList.update l inp (inputs d)),
              inputClosedChans :=
                AList.delete l (AList.update l (nextChan d) (inputClosedChans d)),
              nextChan := Suc (nextChan d)\<rparr>,
            None)
      else ([GoForwarder l inp (nextChan d), InputCloseAsync inp, RemoveTimedOut l],
            forwarder l (nextChan d) es,
            d\<lparr>inputs := AList.update l inp (inputs d),
              inputClosedChans := AList.update l (nextChan d) (inputClosedChans d),
              nextChan := Suc (nextChan d)\<rparr>,
            Some ErrTimeout))"
  by (cases w)
     (simp_all add: add_remove_cycle_def addInput_def launched_def done_wait_def
        removeInput_def update_conv')

text \<open>
  Claim C8. Every \<^verbatim>\<open>addInput\<close> launches one forwarder goroutine, the only caller
  of the two hooks, and stores under the label the done channel it gave that forwarder; a
  removal of the label waits on the channel stored there, so it succeeds only when that
  same forwarder has closed it. In every execution of a forwarder, \<^verbatim>\<open>OnAdd\<close> is
  called exactly once, as the goroutine's first action, so before anything from the input
  is forwarded into the merged channel; \<^verbatim>\<open>OnRemove\<close> is called at most once, and
  exactly once when the forwarder has closed its done channel; and nothing is forwarded
  once \<^verbatim>\<open>OnRemove\<close> has been called. Hence in an add/remove cycle of a label the
  removal completes exactly when the wait sees the done channel of the forwarder of that
  add closed: then the input has been closed and waited for, \<^verbatim>\<open>OnAdd\<close> and
  \<^verbatim>\<open>OnRemove\<close> have each been called exactly once, in this order with all the
  forwarding in between, and the label is gone from the map; otherwise the removal
  returns the timeout error and the label, with its input and its done channel, is kept.
\<close>

theorem hooks_once_in_order:
  "hd (forwarder l c es) = OnAdd l
   \<and> count_list (forwarder l c es) (OnAdd l) = 1
   \<and> count_list (forwarder l c es) (OnRemove l) =
       (if CloseDone c \<in> set (forwarder l c es) then 1 else 0)
   \<and> (\<forall>pre l' t post. forwarder l c es = pre @ Merge l' t # post \<longrightarrow>
         OnAdd l \<in> set pre \<and> OnRemove l \<notin> set pre \<and> CloseDone c \<notin> set pre)
   \<and> fst (snd (addInput d l inp)) = [GoForwarder l inp (nextChan d)]
   \<and> (\<forall>old. map_of (inputs d) l = Some old \<and> snd (snd (removeInput d l w)) = None \<longrightarrow>
         (\<exists>c'. map_of (inputClosedChans d) l = Some c'
            \<and> fst (snd (removeInput d l w)) = [InputCloseAsync old, DoneObserved l c']))
   \<and> map_of (inputs (fst (addInput d l inp))) l = Some inp
   \<and> map_of (inputClosedChans (fst (addInput d l inp))) l = Some (nextChan d)
   \<and> add_remove_cycle d l inp es w =
       (if w = DoneClosed \<and> CloseDone (nextChan d) \<in> set (forwarder l (nextChan d) es)
        then ([GoForwarder l inp (nextChan d), InputCloseAsync inp, DoneObserved l (nextChan d)],
              forwarder l (nextChan d) es,
              d\<lparr>inputs := AList.delete l (AList.update l inp (inputs d)),
                inputClosedChans :=
                  AList.delete l (AList.update l (nextChan d) (inputClosedChans d)),
                nextChan := Suc (nextChan d)\<rparr>,
              None)
        else ([GoForwarder l inp (nextChan d), InputCloseAsync inp, RemoveTimedOut l],
              forwarder l (nextChan d) es,
              d\<lparr>inputs := AList.update l inp (inputs d),
                inputClosedChans := AList.update l (nextChan d) (inputClosedChans d),
                nextChan := Suc (nextChan d)\<rparr>,
              Some ErrTimeout))
   \<and> (snd (snd (snd (add_remove_cycle d l inp es w))) = None \<longrightarrow>
         count_list (fst (snd (add_remove_cycle d l inp es w))) (OnAdd l) = 1
         \<and> count_list (fst (snd (add_remove_cycle d l inp es w))) (OnRemove l) = 1
         \<and> map_of (inputs (fst (snd (snd (add_remove_cycle d l inp es w))))) l = None
         \<and> map_of (inputClosedChans (fst (snd (snd (add_remove_cycle d l inp es w))))) l = None)"
proof -
  have mg: "OnAdd l \<in> set pre \<and> OnRemove l \<notin> set pre \<and> CloseDone c \<notin> set pre"
    if "forwarder l c es = pre @ Merge l' t # post" for pre l' t post
  proof -
    from that obtain pre' where "pre = OnAdd l # pre'" "forwarding l c es = pre' @ Merge l' t # post"
      by (auto simp: forwarder_def Cons_eq_append_conv)
    with forwarding_merge_before_remove[of l c es pre' l' t post] show ?thesis by simp
  qed
  have rm: "\<exists>c'. map_of (inputClosedChans d) l = Some c'
            \<and> fst (snd (removeInput d l w)) = [InputCloseAsync old, DoneObserved l c']"
    if "map_of (inputs d) l = Some old \<and> snd (snd (removeInput d l w)) = None" for old
    using that
    by (cases w; cases "map_of (inputClosedChans d) l") (auto simp: removeInput_def)
  have fw: "hd (forwarder l c es) = OnAdd l
      \<and> count_list (forwarder l c es) (OnAdd l) = 1
      \<and> count_list (forwarder l c es) (OnRemove l) =
          (if CloseDone c \<in> set (forwarder l c es) then 1 else 0)" for c
    by (simp add: forwarder_def forwarding_no_add forwarding_remove_count)
  have ad: "fst (snd (addInput d l inp)) = [GoForwarder l inp (nextChan d)]
      \<and> map_of (inputs (fst (addInput d l inp))) l = Some inp
      \<and> map_of (inputClosedChans (fst (addInput d l inp))) l = Some (nextChan d)"
    by (simp add: addInput_def update_conv')
  note cy = add_remove_cycle_eq[of d l inp es w]
  have fin: "count_list (fst (snd (add_remove_cycle d l inp es w))) (OnAdd l) = 1
         \<and> count_list (fst (snd (add_remove_cycle d l inp es w))) (OnRemove l) = 1
         \<and> map_of (inputs (fst (snd (snd (add_remove_cycle d l inp es w))))) l = None
         \<and> map_of (inputClosedChans (fst (snd (snd (add_remove_cycle d l inp es w))))) l = None"
    if "snd (snd (snd (add_remove_cycle d l inp es w))) = None"
  proof -
    from that have ok: "w = DoneClosed \<and> CloseDone (nextChan d) \<in> set (forwarder l (nextChan d) es)"
      by (simp add: cy split: if_splits)
    with fw[of "nextChan d"] show ?thesis
      by (simp add: add_remove_cycle_eq delete_conv')
  qed
  from fw[of c] mg rm ad cy fin show ?thesis by blast
qed

theorem hooks_once_in_order_witness:
  "forwarder ''first'' 0 [Forwarded \<lparr>Payload = [''hello world''], responseChan = 3\<rparr>, SourceClosed]
     = [OnAdd ''first''] @ Merge ''first'' \<lparr>Payload = [''hello world''], responseChan = 3\<rparr>
         # [OnRemove ''first'', CloseDone 0]
   \<and> OnAdd ''first'' \<in> set [OnAdd ''first''] \<and> OnRemove ''first'' \<notin> set [OnAdd ''first'']
   \<and> count_list (forwarder ''first'' 0
        [Forwarded \<lparr>Payload = [''hello world''], responseChan = 3\<rparr>, SourceClosed])
        (OnRemove ''first'') = 1
   \<and> add_remove_cycle empty_fan_in ''first'' 1
        [Forwarded \<lparr>Payload = [''hello world''], responseChan = 3\<rparr>, SourceClosed] DoneClosed
     = ([GoForwarder ''first'' 1 0, InputCloseAsync 1, DoneObserved ''first'' 0],
        [OnAdd ''first'', Merge ''first'' \<lparr>Payload = [''hello world''], responseChan = 3\<rparr>,
         OnRemove ''first'', CloseDone 0],
        \<lparr>inputs = [], inputClosedChans = [], nextChan = 1\<rparr>, None)
   \<and> add_remove_cycle empty_fan_in ''first'' 1
        [Forwarded \<lparr>Payload = [''hello world''], responseChan = 3\<rparr>] DoneClosed
     = ([GoForwarder ''first'' 1 0, InputCloseAsync 1, RemoveTimedOut ''first''],
        [OnAdd ''first'', Merge ''first'' \<lparr>Payload = [''hello world''], responseChan = 3\<rparr>],
        \<lparr>inputs = [(''first'', 1)], inputClosedChans = [(''first'', 0)], nextChan = 1\<rparr>,
        Some ErrTimeout)"
proof -
  have run: "forwarder ''first'' 0
      [Forwarded \<lparr>Payload = [''hello world''], responseChan = 3\<rparr>, SourceClosed]
     = [OnAdd ''first''] @ Merge ''first'' \<lparr>Payload = [''hello world''], responseChan = 3\<rparr>
         # [OnRemove ''first'', CloseDone 0]"
    and run2: "forwarder ''first'' 0
      [Forwarded \<lparr>Payload = [''hello world''], responseChan = 3\<rparr>]
     = [OnAdd ''first'', Merge ''first'' \<lparr>Payload = [''hello world''], responseChan = 3\<rparr>]"
    by (simp_all add: forwarder_def)
  from hooks_once_in_order[of "''first''" 0
      "[Forwarded \<lparr>Payload = [''hello world''], responseChan = 3\<rparr>, SourceClosed]"
      empty_fan_in 1 DoneClosed]
    hooks_once_in_order[of "''first''" 0
      "[Forwarded \<lparr>Payload = [''hello world''], responseChan = 3\<rparr>]"
      empty_fan_in 1 DoneClosed]
    run run2
  show ?thesis by (simp add: empty_fan_in_def)
qed

subsection \<open>DynamicFanIn: closing the merged channel\<close>

lemma tracked_addInput:
  assumes "forwarders_tracked d as" and "map_of (inputs d) k = None"
  shows "forwarders_tracked (fst (addInput d k i)) (as @ fst (snd (addInput d k i)))"
proof -
  from assms have none: "map_of (inputClosedChans d) k = None"
    by (simp add: forwarders_tracked_def)
  have sync: "(map_of (AList.update k i (inputs d)) k' = None) =
              (map_of (AList.update k (nextChan d) (inputClosedChans d)) k' = None)" for k'
    using assms(1) by (simp add: forwarders_tracked_def update_conv')
  have "DoneObserved l c \<in> set as
        \<or> map_of (AList.update k (nextChan d) (inputClosedChans d)) l = Some c"
    if "GoForwarder l j c \<in> set as" for l j c
  proof -
    from assms(1) that have "DoneObserved l c \<in> set as \<or> map_of (inputClosedChans d) l = Some c"
      unfolding forwarders_tracked_def by blast
    with none show ?thesis by (auto simp: update_conv')
  qed
  with sync show ?thesis
    by (auto simp: forwarders_tracked_def addInput_def update_conv')
qed

lemma removeInput_cases:
  obtains (absent) "map_of (inputs d) k = None" "removeInput d k w = (d, [], None)"
  | (removed) inp c where "map_of (inputs d) k = Some inp" "map_of (inputClosedChans d) k = Some c"
      "removeInput d k w =
         (d\<lparr>inputs := AList.delete k (inputs d),
            inputClosedChans := AList.delete k (inputClosedChans d)\<rparr>,
          [InputCloseAsync inp, DoneObserved k c], None)"
  | (timeout) inp where "map_of (inputs d) k = Some inp"
      "removeInput d k w = (d, [InputCloseAsync inp, RemoveTimedOut k], Some ErrTimeout)"
  by (cases "map_of (inputs d) k"; cases w; cases "map_of (inputClosedChans d) k")
     (auto simp: removeInput_def)

lemma tracked_removeInput:
  assumes "forwarders_tracked d as"
  shows "forwarders_tracked (fst (removeInput d k w)) (as @ fst (snd (removeInput d k w)))
       \<and> (snd (snd (removeInput d k w)) = None \<longrightarrow> map_of (inputs (fst (removeInput d k w))) k = None)
       \<and> (\<forall>k'. map_of (inputs d) k' = None \<longrightarrow> map_of (inputs (fst (removeInput d k w))) k' = None)
       \<and> CloseTransactionChan \<notin> set (fst (snd (removeInput d k w)))"
proof (cases rule: removeInput_cases[of d k w])
  case absent
  with assms show ?thesis by simp
next
  case (removed inp c)
  have "DoneObserved l c' \<in> set as \<or> l = k \<and> c' = c
        \<or> map_of (AList.delete k (inputClosedChans d)) l = Some c'"
    if "GoForwarder l j c' \<in> set as" for l j c'
  proof -
    from assms that have "DoneObserved l c' \<in> set as \<or> map_of (inputClosedChans d) l = Some c'"
      unfolding forwarders_tracked_def by blast
    with removed(2) show ?thesis by (auto simp: delete_conv')
  qed
  moreover have "(map_of (AList.delete k (inputs d)) k' = None) =
                 (map_of (AList.delete k (inputClosedChans d)) k' = None)" for k'
    using assms by (simp add: forwarders_tracked_def delete_conv')
  ultimately have "forwarders_tracked (d\<lparr>inputs := AList.delete k (inputs d),
            inputClosedChans := AList.delete k (inputClosedChans d)\<rparr>)
          (as @ [InputCloseAsync inp, DoneObserved k c])"
    by (auto simp: forwarders_tracked_def)
  with removed show ?thesis by (simp add: delete_conv')
next
  case (timeout inp)
  with assms show ?thesis by (auto simp: forwarders_tracked_def)
qed

lemma tracked_handle_request:
  assumes "forwarders_tracked d as"
  shows "forwarders_tracked (fst (handle_request d k inp w)) (as @ fst (snd (handle_request d k inp w)))
       \<and> CloseTransactionChan \<notin> set (fst (snd (handle_request d k inp w)))"
proof -
  obtain d1 as1 err1 where r: "removeInput d k w = (d1, as1, err1)"
    by (cases "removeInput d k w") auto
  from tracked_removeInput[OF assms, of k w] r
  have t1: "forwarders_tracked d1 (as @ as1)" and n1: "err1 = None \<longrightarrow> map_of (inputs d1) k = None"
    and c1: "CloseTransactionChan \<notin> set as1"
    by simp_all
  show ?thesis
  proof (cases "map_of (inputs d) k = None")
    case True
    note absent = this
    show ?thesis
    proof (cases inp)
      case None
      with absent assms show ?thesis by (simp add: handle_request_def)
    next
      case (Some i)
      from tracked_addInput[OF assms absent, of i] Some absent show ?thesis
        by (simp add: handle_request_def addInput_def)
    qed
  next
    case False
    note present = this
    show ?thesis
    proof (cases "err1 = None \<and> inp \<noteq> None")
      case True
      then obtain i where i: "inp = Some i" and e: "err1 = None" by auto
      from n1 e have "map_of (inputs d1) k = None" by simp
      from tracked_addInput[OF t1 this, of i] present r i e c1 show ?thesis
        by (simp add: handle_request_def addInput_def)
    next
      case False
      with present r t1 c1 show ?thesis
        by (cases err1; cases inp) (auto simp: handle_request_def)
    qed
  qed
qed

lemma tracked_manager_requests:
  assumes "forwarders_tracked d as" and "snd (manager_requests d es) = Some d'"
  shows "forwarders_tracked d' (as @ fst (manager_requests d es))"
  using assms
proof (induction es arbitrary: d as)
  case Nil
  then show ?case by simp
next
  case (Cons e es)
  show ?case
  proof (cases e)
    case (Request name inp w dl)
    obtain d1 as1 err where h: "handle_request d name inp w = (d1, as1, err)"
      by (cases "handle_request d name inp w") auto
    from tracked_handle_request[OF Cons.prems(1), of name inp w] h
    have t1: "forwarders_tracked d1 (as @ as1)" by simp
    show ?thesis
    proof (cases dl)
      case ResultTaken
      have t2: "forwarders_tracked d1 ((as @ as1) @ [ResultSent err])"
        using t1 by (auto simp: forwarders_tracked_def)
      from Cons.prems(2) Request h ResultTaken have "snd (manager_requests d1 es) = Some d'" by simp
      from Cons.IH[OF t2 this] Request h ResultTaken show ?thesis by simp
    next
      case CloseOnDeliver
      with Cons.prems(2) Request h have "d' = d1" by simp
      moreover have "forwarders_tracked d1 ((as @ as1) @ [ResultChanClosed])"
        using t1 by (auto simp: forwarders_tracked_def)
      ultimately show ?thesis using Request h CloseOnDeliver by simp
    qed
  next
    case RequestsClosed
    with Cons.prems show ?thesis by simp
  next
    case CloseRaised
    with Cons.prems show ?thesis by simp
  qed
qed

lemma manager_requests_close:
  assumes "snd (manager_requests d es) = Some d'" and "RequestsClosed \<notin> set es"
  shows "list_ex is_close es"
  using assms
proof (induction es arbitrary: d)
  case Nil
  then show ?case by simp
next
  case (Cons e es)
  show ?case
  proof (cases e)
    case (Request name inp w dl)
    with Cons show ?thesis
      by (cases dl; cases "handle_request d name inp w") auto
  qed (use Cons in auto)
qed

lemma manager_requests_no_close_chan:
  "CloseTransactionChan \<notin> set (fst (manager_requests d es))"
proof (induction es arbitrary: d)
  case Nil
  then show ?case by simp
next
  case (Cons e es)
  show ?case
  proof (cases e)
    case (Request name inp w dl)
    obtain d1 as1 err where h: "handle_request d name inp w = (d1, as1, err)"
      by (cases "handle_request d name inp w") auto
    from tracked_handle_request[of d "[]" name inp w] h
    have "CloseTransactionChan \<notin> set as1"
      by (auto simp: forwarders_tracked_def handle_request_def removeInput_def addInput_def
          split: if_splits option.splits wait_outcome.splits prod.splits)
    with Cons.IH[of d1] Request h show ?thesis by (cases dl) auto
  qed simp_all
qed

lemma tracked_remove_until_done:
  assumes "forwarders_tracked d as" and "snd (remove_until_done d k ws) = Some (d', ws')"
  shows "forwarders_tracked d' (as @ fst (remove_until_done d k ws))
       \<and> map_of (inputs d') k = None
       \<and> (\<forall>k'. map_of (inputs d) k' = None \<longrightarrow> map_of (inputs d') k' = None)"
  using assms
proof (induction ws arbitrary: d as)
  case Nil
  then show ?case by simp
next
  case (Cons w ws)
  obtain d1 as1 err where r: "removeInput d k w = (d1, as1, err)"
    by (cases "removeInput d k w") auto
  from tracked_removeInput[OF Cons.prems(1), of k w] r
  have t1: "forwarders_tracked d1 (as @ as1)"
    and n1: "err = None \<longrightarrow> map_of (inputs d1) k = None"
    and m1: "\<forall>k'. map_of (inputs d) k' = None \<longrightarrow> map_of (inputs d1) k' = None"
    by simp_all
  show ?case
  proof (cases err)
    case None
    with Cons.prems(2) r have "d' = d1" by simp
    with None r t1 n1 m1 show ?thesis by simp
  next
    case (Some e)
    with Cons.prems(2) r have "snd (remove_until_done d1 k ws) = Some (d', ws')" by simp
    from Cons.IH[OF t1 this] Some r m1 show ?thesis by simp
  qed
qed

lemma remove_until_done_no_close_chan:
  "CloseTransactionChan \<notin> set (fst (remove_until_done d k ws))"
proof (induction ws arbitrary: d)
  case Nil
  then show ?case by simp
next
  case (Cons w ws)
  show ?case
  proof (cases rule: removeInput_cases[of d k w])
    case absent
    then show ?thesis by simp
  next
    case (removed inp c)
    then show ?thesis by simp
  next
    case (timeout inp)
    with Cons.IH[of d] show ?thesis by simp
  qed
qed

lemma tracked_remove_all:
  assumes "forwarders_tracked d as" and "snd (remove_all d ks ws) = Some d'"
  shows "forwarders_tracked d' (as @ fst (remove_all d ks ws))
       \<and> (\<forall>k\<in>set ks. map_of (inputs d') k = None)
       \<and> (\<forall>k'. map_of (inputs d) k' = None \<longrightarrow> map_of (inputs d') k' = None)"
  using assms
proof (induction ks arbitrary: d as ws)
  case Nil
  then show ?case by simp
next
  case (Cons k ks)
  obtain as1 r1 where u: "remove_until_done d k ws = (as1, r1)"
    by (cases "remove_until_done d k ws") auto
  with Cons.prems(2) obtain d1 ws1 where r1: "r1 = Some (d1, ws1)"
    by (cases r1) auto
  from tracked_remove_until_done[OF Cons.prems(1), of k ws d1 ws1] u r1
  have t1: "forwarders_tracked d1 (as @ as1)" and n1: "map_of (inputs d1) k = None"
    and m1: "\<forall>k'. map_of (inputs d) k' = None \<longrightarrow> map_of (inputs d1) k' = None"
    by simp_all
  from Cons.prems(2) u r1 have "snd (remove_all d1 ks ws1) = Some d'" by simp
  from Cons.IH[OF t1 this] u r1 n1 m1 show ?case by simp
qed

lemma remove_all_no_close_chan:
  "CloseTransactionChan \<notin> set (fst (remove_all d ks ws))"
proof (induction ks arbitrary: d ws)
  case Nil
  then show ?case by simp
next
  case (Cons k ks)
  obtain as1 r1 where u: "remove_until_done d k ws = (as1, r1)"
    by (cases "remove_until_done d k ws") auto
  with remove_until_done_no_close_chan[of d k ws] have a: "CloseTransactionChan \<notin> set as1"
    by simp
  show ?case
  proof (cases r1)
    case None
    with u a show ?thesis by simp
  next
    case (Some p)
    obtain d1 ws1 where "p = (d1, ws1)" by (cases p) auto
    with Some u a Cons.IH[of d1 ws1] show ?thesis by simp
  qed
qed

lemma tracked_add_inputs:
  assumes "forwarders_tracked d as" and "distinct (map fst init)"
    and "\<forall>k\<in>set (map fst init). map_of (inputs d) k = None"
  shows "forwarders_tracked (fst (add_inputs d init)) (as @ snd (add_inputs d init))"
  using assms
proof (induction init arbitrary: d as)
  case Nil
  then show ?case by simp
next
  case (Cons p init)
  obtain k i where p: "p = (k, i)" by (cases p) auto
  from Cons.prems(3) p have none: "map_of (inputs d) k = None" by simp
  let ?d1 = "fst (addInput d k i)"
  let ?as1 = "fst (snd (addInput d k i))"
  have t1: "forwarders_tracked ?d1 (as @ ?as1)"
    by (rule tracked_addInput[OF Cons.prems(1) none])
  have rest: "\<forall>k'\<in>set (map fst init). map_of (inputs ?d1) k' = None"
    using Cons.prems(2,3) p by (auto simp: addInput_def update_conv')
  from Cons.prems(2) have "distinct (map fst init)" by simp
  from Cons.IH[OF t1 this rest] p show ?case
    by (cases "addInput d k i") simp
qed

lemma add_inputs_no_close_chan:
  "CloseTransactionChan \<notin> set (snd (add_inputs d init))"
  by (induction d init rule: add_inputs.induct) (simp_all add: addInput_def)

lemma tracked_more:
  assumes "forwarders_tracked d as" and "\<forall>l i c. GoForwarder l i c \<notin> set bs"
  shows "forwarders_tracked d (as @ bs)"
  using assms unfolding forwarders_tracked_def by fastforce

lemma last_two_split:
  assumes "xs @ [a, b] = pre @ a # post" and "a \<notin> set xs" and "a \<noteq> b"
  shows "pre = xs \<and> post = [b]"
proof -
  from assms(1) consider us where "xs = pre @ us" "us @ [a, b] = a # post"
    | us where "xs @ us = pre" "[a, b] = us @ a # post"
    by (auto simp: append_eq_append_conv2)
  then show ?thesis
  proof cases
    case 1
    with assms(2) have "us = []" by (cases us) auto
    with 1 show ?thesis by simp
  next
    case 2
    with assms(2,3) show ?thesis
      by (cases us) (auto simp: Cons_eq_append_conv)
  qed
qed

lemma fan_in_closed_run:
  assumes "distinct (map fst init)"
    and "NewDynamicFanIn r1 r2 init ms ws = pre @ CloseTransactionChan # post"
    and all: "\<forall>al. set (r2 al) = set al"
  shows "post = [CloseBrokerClosedChan] \<and> CloseTransactionChan \<notin> set pre
       \<and> (\<exists>d1. snd (manager_requests (fst (add_inputs empty_fan_in init)) ms) = Some d1)
       \<and> (\<exists>d2. forwarders_tracked d2 pre \<and> (\<forall>k. map_of (inputs d2) k = None))"
proof -
  obtain d0 as0 where a0: "add_inputs empty_fan_in init = (d0, as0)"
    by (cases "add_inputs empty_fan_in init") auto
  obtain as1 res1 where m1: "manager_requests d0 ms = (as1, res1)"
    by (cases "manager_requests d0 ms") auto
  have c0: "CloseTransactionChan \<notin> set as0"
    using add_inputs_no_close_chan[of empty_fan_in init] a0 by simp
  have c1: "CloseTransactionChan \<notin> set as1"
    using manager_requests_no_close_chan[of d0 ms] m1 by simp
  have t0: "forwarders_tracked d0 as0"
    using tracked_add_inputs[of empty_fan_in "[]" init] assms(1) a0
    by (simp add: forwarders_tracked_def empty_fan_in_def)
  have mem: "CloseTransactionChan \<in> set (NewDynamicFanIn r1 r2 init ms ws)"
    using assms(2) by simp
  show ?thesis
  proof (cases res1)
    case None
    with mem a0 m1 c0 c1 show ?thesis
      by (auto simp: NewDynamicFanIn_def managerLoop_def)
  next
    case (Some d1)
    have t1: "forwarders_tracked d1 (as0 @ as1)"
      using tracked_manager_requests[OF t0, of ms d1] m1 Some by simp
    let ?cl = "map InputCloseAsync (map snd (r1 (inputs d1)))"
    have t1': "forwarders_tracked d1 ((as0 @ as1) @ ?cl)"
      by (rule tracked_more[OF t1]) auto
    obtain as2 res2 where ra: "remove_all d1 (map fst (r2 (inputs d1))) ws = (as2, res2)"
      by (cases "remove_all d1 (map fst (r2 (inputs d1))) ws") auto
    have c2: "CloseTransactionChan \<notin> set as2"
      using remove_all_no_close_chan[of d1 "map fst (r2 (inputs d1))" ws] ra by simp
    have ccl: "CloseTransactionChan \<notin> set ?cl" by auto
    show ?thesis
    proof (cases res2)
      case None
      with mem a0 m1 \<open>res1 = Some d1\<close> ra c0 c1 c2 show ?thesis
        by (auto simp: NewDynamicFanIn_def managerLoop_def manager_deferred_def)
    next
      case (Some d2)
      let ?X = "((as0 @ as1) @ ?cl) @ as2"
      have run: "NewDynamicFanIn r1 r2 init ms ws = ?X @ [CloseTransactionChan, CloseBrokerClosedChan]"
        using a0 m1 \<open>res1 = Some d1\<close> ra Some
        by (simp add: NewDynamicFanIn_def managerLoop_def manager_deferred_def)
      have cx: "CloseTransactionChan \<notin> set ?X" using c0 c1 c2 ccl by simp
      from last_two_split[OF run[unfolded assms(2), symmetric] cx]
      have pre: "pre = ?X" and post: "post = [CloseBrokerClosedChan]" by simp_all
      from tracked_remove_all[OF t1', of "map fst (r2 (inputs d1))" ws d2] ra Some all
      have t2: "forwarders_tracked d2 ?X"
        and gone: "\<forall>k\<in>set (map fst (inputs d1)). map_of (inputs d2) k = None"
        and stay: "\<forall>k'. map_of (inputs d1) k' = None \<longrightarrow> map_of (inputs d2) k' = None"
        by simp_all
      have "map_of (inputs d2) k = None" for k
      proof (cases "map_of (inputs d1) k")
        case None
        with stay show ?thesis by simp
      next
        case (Some i)
        then have "k \<in> set (map fst (inputs d1))"
          by (metis domI dom_map_of_conv_image_fst set_map)
        with gone show ?thesis by auto
      qed
      with t2 pre post cx m1 \<open>res1 = Some d1\<close> a0 show ?thesis by auto
    qed
  qed
qed

lemma fan_in_close_count:
  "count_list (NewDynamicFanIn r1 r2 init ms ws) CloseTransactionChan =
     (case snd (manager_requests (fst (add_inputs empty_fan_in init)) ms) of
        None \<Rightarrow> 0
      | Some d1 \<Rightarrow>
          (case snd (remove_all d1 (map fst (r2 (inputs d1))) ws) of
             None \<Rightarrow> 0
           | Some d2 \<Rightarrow> 1))"
proof -
  obtain d0 as0 where a0: "add_inputs empty_fan_in init = (d0, as0)"
    by (cases "add_inputs empty_fan_in init") auto
  obtain as1 res1 where m1: "manager_requests d0 ms = (as1, res1)"
    by (cases "manager_requests d0 ms") auto
  have c0: "count_list as0 CloseTransactionChan = 0"
    using add_inputs_no_close_chan[of empty_fan_in init] a0 by (simp add: count_list_0_iff)
  have c1: "count_list as1 CloseTransactionChan = 0"
    using manager_requests_no_close_chan[of d0 ms] m1 by (simp add: count_list_0_iff)
  show ?thesis
  proof (cases res1)
    case None
    with a0 m1 c0 c1 show ?thesis
      by (simp add: NewDynamicFanIn_def managerLoop_def)
  next
    case (Some d1)
    obtain as2 res2 where ra: "remove_all d1 (map fst (r2 (inputs d1))) ws = (as2, res2)"
      by (cases "remove_all d1 (map fst (r2 (inputs d1))) ws") auto
    have c2: "count_list as2 CloseTransactionChan = 0"
      using remove_all_no_close_chan[of d1 "map fst (r2 (inputs d1))" ws] ra
      by (simp add: count_list_0_iff)
    have ccl: "count_list (map (InputCloseAsync \<circ> f) xs) CloseTransactionChan = 0"
      for f :: "label \<times> dyn_input \<Rightarrow> dyn_input" and xs
      by (induction xs) simp_all
    from a0 m1 Some ra c0 c1 c2 ccl show ?thesis
      by (cases res2) (simp_all add: NewDynamicFanIn_def managerLoop_def manager_deferred_def)
  qed
qed

text \<open>
  Claim C9. RoundRobin: an output channel is closed only by the deferred function of the
  loop, so only once the loop has returned because the broker is being closed or the
  inbound channel is closed; it is never closed twice and nothing is forwarded after it;
  and each of the \<open>n\<close> output channels is closed exactly once when the loop has met an
  outcome on which it returns, and not at all before. DynamicFanIn (whose request channel
  no code closes; the two loops of the deferred function range over the map in orders of
  their own): the merged channel is closed as the last but one action of the manager
  loop's deferred function, only after the loop took the close signal, and only after
  every forwarder launched so far has been seen to have closed its done channel, the last
  thing a forwarder does; it is closed exactly once when the loop has returned and every
  removal has succeeded, and not at all otherwise.
\<close>

theorem channels_closed_at_shutdown:
  "(rr_loop n es = pre @ CloseOutputChan i # post \<longrightarrow>
      i < n \<and> CloseOutputChan i \<notin> set pre \<and> CloseOutputChan i \<notin> set post
      \<and> (\<forall>j t. Forward j t \<notin> set post) \<and> list_ex rr_stop es)
   \<and> (CloseClosedChan \<in> set (rr_loop n es) \<and> i < n \<longrightarrow>
      count_list (rr_loop n es) (CloseOutputChan i) = 1)
   \<and> count_list (rr_loop n es) (CloseOutputChan i) =
      (if list_ex rr_stop es \<and> i < n then 1 else 0)
   \<and> (distinct (map fst init) \<and> RequestsClosed \<notin> set ms \<and> (\<forall>al. set (r2 al) = set al)
      \<and> NewDynamicFanIn r1 r2 init ms ws = pre' @ CloseTransactionChan # post' \<longrightarrow>
      post' = [CloseBrokerClosedChan] \<and> CloseTransactionChan \<notin> set pre'
      \<and> list_ex is_close ms
      \<and> (\<forall>l inp c. GoForwarder l inp c \<in> set pre' \<longrightarrow> DoneObserved l c \<in> set pre'))
   \<and> count_list (NewDynamicFanIn r1 r2 init ms ws) CloseTransactionChan =
      (case snd (manager_requests (fst (add_inputs empty_fan_in init)) ms) of
         None \<Rightarrow> 0
       | Some d1 \<Rightarrow>
           (case snd (remove_all d1 (map fst (r2 (inputs d1))) ws) of
              None \<Rightarrow> 0
            | Some d2 \<Rightarrow> 1))"
proof -
  have rr1: "rr_loop n es = pre @ CloseOutputChan i # post \<longrightarrow>
      i < n \<and> CloseOutputChan i \<notin> set pre \<and> CloseOutputChan i \<notin> set post
      \<and> (\<forall>j t. Forward j t \<notin> set post) \<and> list_ex rr_stop es"
    using rr_loop_close[of n es pre i post] by blast
  have rr2: "CloseClosedChan \<in> set (rr_loop n es) \<and> i < n \<longrightarrow>
      count_list (rr_loop n es) (CloseOutputChan i) = 1"
    using rr_iterate_close_count[of n 0 es i] by (simp add: rr_loop_def)
  note rr3 = rr_loop_close_exact[of n es i]
  have dfi: "post' = [CloseBrokerClosedChan] \<and> CloseTransactionChan \<notin> set pre'
      \<and> list_ex is_close ms
      \<and> (\<forall>l inp c. GoForwarder l inp c \<in> set pre' \<longrightarrow> DoneObserved l c \<in> set pre')"
    if a: "distinct (map fst init) \<and> RequestsClosed \<notin> set ms \<and> (\<forall>al. set (r2 al) = set al)
      \<and> NewDynamicFanIn r1 r2 init ms ws = pre' @ CloseTransactionChan # post'"
  proof -
    from fan_in_closed_run[of init r1 r2 ms ws pre' post'] a
    obtain d1 d2 where post: "post' = [CloseBrokerClosedChan]"
      and once: "CloseTransactionChan \<notin> set pre'"
      and ret: "snd (manager_requests (fst (add_inputs empty_fan_in init)) ms) = Some d1"
      and tr: "forwarders_tracked d2 pre'" and empty: "\<forall>k. map_of (inputs d2) k = None"
      by blast
    from manager_requests_close[OF ret] a have cl: "list_ex is_close ms" by simp
    from tr empty
    have "\<forall>l inp c. GoForwarder l inp c \<in> set pre' \<longrightarrow> DoneObserved l c \<in> set pre'"
      unfolding forwarders_tracked_def by (metis option.distinct(1))
    with post once cl show ?thesis by simp
  qed
  note cnt = fan_in_close_count[of r1 r2 init ms ws]
  from rr1 rr2 rr3 dfi cnt show ?thesis by blast
qed

theorem channels_closed_at_shutdown_witness:
  "rr_loop 2 [Received \<lparr>Payload = [''a''], responseChan = 5\<rparr> Accepted, InboundClosed]
     = [Forward 0 \<lparr>Payload = [''a''], responseChan = 5\<rparr>] @ CloseOutputChan 0 #
       [CloseOutputChan 1, CloseAllOutputs, CloseClosedChan]
   \<and> list_ex rr_stop [Received \<lparr>Payload = [''a''], responseChan = 5\<rparr> Accepted, InboundClosed]
   \<and> count_list
        (rr_loop 2 [Received \<lparr>Payload = [''a''], responseChan = 5\<rparr> Accepted, InboundClosed])
        (CloseOutputChan 0) = 1
   \<and> (\<forall>al::(label \<times> dyn_input) list. set (rev al) = set al)
   \<and> NewDynamicFanIn (\<lambda>al. al) rev [(''a'', 1)]
        [Request ''b'' (Some 2) DoneClosed ResultTaken, CloseRaised]
        [TimerFired, DoneClosed, DoneClosed]
     = [GoForwarder ''a'' 1 0, GoForwarder ''b'' 2 1, ResultSent None,
        InputCloseAsync 1, InputCloseAsync 2,
        InputCloseAsync 2, RemoveTimedOut ''b'', InputCloseAsync 2, DoneObserved ''b'' 1,
        InputCloseAsync 1, DoneObserved ''a'' 0] @ CloseTransactionChan # [CloseBrokerClosedChan]
   \<and> list_ex is_close [Request ''b'' (Some 2) DoneClosed ResultTaken, CloseRaised]
   \<and> DoneObserved ''a'' 0 \<in> set
       [GoForwarder ''a'' 1 0, GoForwarder ''b'' 2 1, ResultSent None,
        InputCloseAsync 1, InputCloseAsync 2,
        InputCloseAsync 2, RemoveTimedOut ''b'', InputCloseAsync 2, DoneObserved ''b'' 1,
        InputCloseAsync 1, DoneObserved ''a'' 0]"
proof -
  have rr: "rr_loop 2 [Received \<lparr>Payload = [''a''], responseChan = 5\<rparr> Accepted, InboundClosed]
     = [Forward 0 \<lparr>Payload = [''a''], responseChan = 5\<rparr>] @ CloseOutputChan 0 #
       [CloseOutputChan 1, CloseAllOutputs, CloseClosedChan]"
    by (simp add: rr_loop_def rr_deferred_def upt_conv_Cons)
  have fi: "NewDynamicFanIn (\<lambda>al. al) rev [(''a'', 1)]
        [Request ''b'' (Some 2) DoneClosed ResultTaken, CloseRaised]
        [TimerFired, DoneClosed, DoneClosed]
     = [GoForwarder ''a'' 1 0, GoForwarder ''b'' 2 1, ResultSent None,
        InputCloseAsync 1, InputCloseAsync 2,
        InputCloseAsync 2, RemoveTimedOut ''b'', InputCloseAsync 2, DoneObserved ''b'' 1,
        InputCloseAsync 1, DoneObserved ''a'' 0] @ CloseTransactionChan # [CloseBrokerClosedChan]"
    by (simp add: NewDynamicFanIn_def empty_fan_in_def addInput_def managerLoop_def
        handle_request_def removeInput_def manager_deferred_def)
  have d: "distinct (map fst [(''a'', 1::nat)])"
    and nc: "RequestsClosed \<notin> set [Request ''b'' (Some 2) DoneClosed ResultTaken, CloseRaised]"
    and pm: "\<forall>al::(label \<times> dyn_input) list. set (rev al) = set al"
    by simp_all
  from channels_closed_at_shutdown[of 2
      "[Received \<lparr>Payload = [''a''], responseChan = 5\<rparr> Accepted, InboundClosed]"
      "[Forward 0 \<lparr>Payload = [''a''], responseChan = 5\<rparr>]" 0
      "[CloseOutputChan 1, CloseAllOutputs, CloseClosedChan]"
      "[(''a'', 1)]" "[Request ''b'' (Some 2) DoneClosed ResultTaken, CloseRaised]" rev
      "\<lambda>al. al"
      "[TimerFired, DoneClosed, DoneClosed]"
      "[GoForwarder ''a'' 1 0, GoForwarder ''b'' 2 1, ResultSent None,
        InputCloseAsync 1, InputCloseAsync 2,
        InputCloseAsync 2, RemoveTimedOut ''b'', InputCloseAsync 2, DoneObserved ''b'' 1,
        InputCloseAsync 1, DoneObserved ''a'' 0]" "[CloseBrokerClosedChan]"]
    rr fi d nc pm
  show ?thesis by simp
qed

subsection \<open>Retry: the goroutine of one transaction\<close>

lemma downstreams_append: "downstreams (xs @ ys) = downstreams xs @ downstreams ys"
  by (induction xs rule: downstreams.induct) simp_all


lemma downstreams_deferred: "downstreams (handler_deferred b) = []"
  by (simp add: handler_deferred_def)


lemma downstreams_acks: "downstreams (map (\<lambda>(c, r). UpstreamAck c r) xs) = []"
  by (induction xs) auto


lemma downstreams_handler:
  "downstreams (handler cf ts c es ack) = downstreams (fst (handler_loop cf ts c False None es))"
  by (cases "handler_loop cf ts c False None es"; cases "snd (handler_loop cf ts c False None es)")
     (auto simp: handler_def downstreams_append downstreams_deferred downstreams_acks)










subsection \<open>Retry: the result channel of the resends\<close>

lemma handler_loop_downstreams:
  "x \<in> set (downstreams (fst (handler_loop cf ts c inErr bo es))) \<Longrightarrow> x = (Payload ts, c)"
proof (induction es arbitrary: inErr bo)
  case Nil
  then show ?case by simp
next
  case (Cons e es)
  show ?case
  proof (cases e)
    case (ResultErr err rd rs)
    define b where "b = (case bo of None \<Rightarrow> backoffCtor cf | Some b \<Rightarrow> b)"
    obtain d b' where nx: "NextBackOff cf b rd = (d, b')" by (cases "NextBackOff cf b rd") auto
    from Cons.prems ResultErr nx Cons.IH[of True "Some b'"] show ?thesis
      by (cases d; cases rs) (auto simp: b_def downstreams_append split: if_splits)
  qed (use Cons.prems in simp_all)
qed

lemma started_channels:
  "map snd (started (retry_loop pc c ls)) =
     (case pc of
        AtSend ts r \<Rightarrow>
          (if started (retry_loop pc c ls) = [] then []
           else r # [c..<c + (length (started (retry_loop pc c ls)) - 1)])
      | _ \<Rightarrow> [c..<c + length (started (retry_loop pc c ls))])"
  by (induction pc c ls rule: retry_loop.induct)
     (auto simp: upt_conv_Cons split: if_splits loop_pc.splits)

text \<open>
  Claim C6, as the code has it. Every downstream transaction the wrapper sends for one
  inbound transaction, the first send and every resend after a failed acknowledgement,
  carries the transaction's payload and the same result channel: the one the consuming
  loop made when it received the inbound transaction. Only across inbound transactions
  are the channels new: the consuming loop makes one per transaction it receives.
\<close>

theorem retry_resends_same_channel:
  "downstreams (retry_transaction cf ts c es ack) =
     replicate (length (downstreams (retry_transaction cf ts c es ack))) (Payload ts, c)
   \<and> map snd (started (retry_loop AtCondition 0 ls)) =
     [0..<length (started (retry_loop AtCondition 0 ls))]"
proof -
  have "\<forall>x\<in>set (downstreams (retry_transaction cf ts c es ack)). x = (Payload ts, c)"
    using handler_loop_downstreams[of _ cf ts c False None es]
    by (auto simp: retry_transaction_def downstreams_handler)
  then have "replicate (length (downstreams (retry_transaction cf ts c es ack))) (Payload ts, c)
             = downstreams (retry_transaction cf ts c es ack)"
    by (rule replicate_length_same)
  then show ?thesis
    using started_channels[of AtCondition 0 ls] by simp
qed

theorem retry_resends_same_channel_witness:
  "downstreams (retry_transaction (counting_backoff 3)
      \<lparr>Payload = [''hello world''], responseChan = 9\<rparr> 4
      [ResultErr (ErrorsNew ''test'') 0 Resent, ResultErr (ErrorsNew ''test'') 0 Resent, ResultNil]
      AckDelivered)
     = [([''hello world''], 4), ([''hello world''], 4), ([''hello world''], 4)]
   \<and> map snd (started (retry_loop AtCondition 0
        [ShouldClose False, Loaded 0, Inbound \<lparr>Payload = [''a''], responseChan = 9\<rparr>, Taken,
         ShouldClose False, Loaded 0, Inbound \<lparr>Payload = [''b''], responseChan = 10\<rparr>, Taken]))
     = [0, 1]"
proof -
  have n: "length (downstreams (retry_transaction (counting_backoff 3)
      \<lparr>Payload = [''hello world''], responseChan = 9\<rparr> 4
      [ResultErr (ErrorsNew ''test'') 0 Resent, ResultErr (ErrorsNew ''test'') 0 Resent, ResultNil]
      AckDelivered)) = 3"
    by (simp add: retry_transaction_def handler_def counting_backoff_def Ack_def
        handler_deferred_def)
  have m: "length (started (retry_loop AtCondition 0
        [ShouldClose False, Loaded 0, Inbound \<lparr>Payload = [''a''], responseChan = 9\<rparr>, Taken,
         ShouldClose False, Loaded 0, Inbound \<lparr>Payload = [''b''], responseChan = 10\<rparr>, Taken]))
      = 2"
    by simp
  from retry_resends_same_channel[of "counting_backoff 3"
      "\<lparr>Payload = [''hello world''], responseChan = 9\<rparr>" 4
      "[ResultErr (ErrorsNew ''test'') 0 Resent, ResultErr (ErrorsNew ''test'') 0 Resent, ResultNil]"
      AckDelivered
      "[ShouldClose False, Loaded 0, Inbound \<lparr>Payload = [''a''], responseChan = 9\<rparr>, Taken,
         ShouldClose False, Loaded 0, Inbound \<lparr>Payload = [''b''], responseChan = 10\<rparr>, Taken]"]
  show ?thesis
    unfolding n m by (simp add: numeral_3_eq_3 upt_conv_Cons)
qed

text \<open>
  Claim C6 as stated fails: after one failed acknowledgement the payload is resent with
  the result channel of the first send, not with a new one.
\<close>

theorem retry_fresh_channel_counterexample:
  "downstreams (retry_transaction (counting_backoff 3)
      \<lparr>Payload = [''hello world''], responseChan = 9\<rparr> 4
      [ResultErr (ErrorsNew ''test'') 0 Resent] AckDelivered)
     = [([''hello world''], 4), ([''hello world''], 4)]
   \<and> \<not> distinct (map snd (downstreams (retry_transaction (counting_backoff 3)
      \<lparr>Payload = [''hello world''], responseChan = 9\<rparr> 4
      [ResultErr (ErrorsNew ''test'') 0 Resent] AckDelivered)))"
  by (simp add: retry_transaction_def handler_def counting_backoff_def)

subsection \<open>Acknowledgements written to the inbound channel\<close>

















subsection \<open>Retry: the gate on the counter\<close>

lemma retry_loop_consume:
  "retry_loop pc c ls = pre @ Consume ts # post \<Longrightarrow>
     (pc = AtReceive \<and> pre = []) \<or> (\<exists>pre' v. pre = pre' @ [Load v] \<and> v \<le> 0)"
proof (induction pc c ls arbitrary: pre rule: retry_loop.induct)
  case (3 c v es)
  from "3.prems" obtain pre2 where pre: "pre = Load v # pre2"
    and rest: "(if 0 < v then retry_loop AtPause c es else retry_loop AtReceive c es)
               = pre2 @ Consume ts # post"
    by (auto simp: Cons_eq_append_conv)
  show ?case
  proof (cases "0 < v")
    case True
    with rest "3.IH"(1)[of pre2] pre show ?thesis by auto
  next
    case False
    with rest "3.IH"(2)[of pre2] pre show ?thesis by auto
  qed
next
  case (10 ts' r c es)
  from "10.prems" obtain pre2 where "pre = Downstream (Payload ts') r # Go ts' r # pre2"
    and "retry_loop AtCondition c es = pre2 @ Consume ts # post"
    by (auto simp: Cons_eq_append_conv)
  with "10.IH"[of pre2] show ?case by auto
qed (auto simp: Cons_eq_append_conv split: if_splits)

lemma retry_loop_after_pause:
  "pc = AtGate \<or> pc = AtPause \<Longrightarrow> retry_loop pc c ls = a # post \<Longrightarrow>
     (\<exists>v'. a = Load v') \<or> a = LoopReturn"
  by (induction pc c ls rule: retry_loop.induct) (auto split: if_splits)

lemma retry_loop_positive_read:
  "retry_loop pc c ls = pre @ Load v # a # post \<Longrightarrow> 0 < v \<Longrightarrow>
     (\<exists>v'. a = Load v') \<or> a = LoopReturn"
proof (induction pc c ls arbitrary: pre rule: retry_loop.induct)
  case (3 c x es)
  show ?case
  proof (cases pre)
    case Nil
    with "3.prems" have "x = v" and "retry_loop AtPause c es = a # post" by auto
    with retry_loop_after_pause[of AtPause c es a post] show ?thesis by simp
  next
    case (Cons p pre2)
    with "3.prems" have "(if 0 < x then retry_loop AtPause c es else retry_loop AtReceive c es)
        = pre2 @ Load v # a # post" by simp
    with "3.IH"(1)[of pre2] "3.IH"(2)[of pre2] "3.prems"(2) show ?thesis
      by (auto split: if_splits)
  qed
next
  case (7 c ts' es)
  from "7.prems" obtain pre2 where "retry_loop (AtSend ts' c) (Suc c) es = pre2 @ Load v # a # post"
    by (auto simp: Cons_eq_append_conv)
  with "7.IH"[of pre2] "7.prems"(2) show ?case by simp
next
  case (10 ts' r c es)
  from "10.prems" obtain pre2 where "retry_loop AtCondition c es = pre2 @ Load v # a # post"
    by (auto simp: Cons_eq_append_conv)
  with "10.IH"[of pre2] "10.prems"(2) show ?case by simp
qed (auto simp: Cons_eq_append_conv split: if_splits)

lemma acts_of_append: "acts_of w (xs @ ys) = acts_of w xs @ acts_of w ys"
  by (simp add: acts_of_def)

lemma acts_of_last:
  "acts_of w g = xs @ [a] \<Longrightarrow>
     \<exists>g1 g2. g = g1 @ (w, a) # g2 \<and> acts_of w g1 = xs \<and> acts_of w g2 = []"
proof (induction g arbitrary: xs rule: rev_induct)
  case Nil
  then show ?case by (simp add: acts_of_def)
next
  case (snoc p g)
  show ?case
  proof (cases "fst p = w")
    case True
    with snoc.prems have "acts_of w g = xs" and "snd p = a"
      by (simp_all add: acts_of_def)
    with True have "g @ [p] = g @ (w, a) # []" "acts_of w g = xs" "acts_of w [] = []"
      by (auto simp: acts_of_def)
    then show ?thesis by blast
  next
    case False
    with snoc.prems have "acts_of w g = xs @ [a]" by (simp add: acts_of_def)
    from snoc.IH[OF this] obtain g1 g2 where
      "g = g1 @ (w, a) # g2" "acts_of w g1 = xs" "acts_of w g2 = []" by blast
    with False have "g @ [p] = g1 @ (w, a) # (g2 @ [p])" "acts_of w g1 = xs"
      "acts_of w (g2 @ [p]) = []"
      by (auto simp: acts_of_def)
    then show ?thesis by blast
  qed
qed

lemma loads_agree_append:
  "loads_agree v (xs @ ys) = (loads_agree v xs \<and> loads_agree (errLooped_after v xs) ys)"
  by (induction v xs rule: loads_agree.induct) simp_all

text \<open>
  What the gate on the counter does guarantee. In every joint execution of the consuming
  loop and its goroutines, the loop consumes an inbound transaction only after a read of
  the counter that returned zero (or less): between that read, which returned the value
  the counter had at that moment, and the receive the loop does nothing else. After a read
  that returned a positive value the loop's next action is another read of the counter, or
  its return on the close signal: it does not receive from the inbound channel.
\<close>

theorem consume_follows_zero_read:
  assumes "joint_run cf ls hs g"
  shows "(\<forall>pre ts post. g = pre @ (ConsumingLoop, Consume ts) # post \<longrightarrow>
            (\<exists>pre1 v pre2. pre = pre1 @ (ConsumingLoop, Load v) # pre2 \<and> v \<le> 0
               \<and> errLooped_after 0 pre1 = v \<and> acts_of ConsumingLoop pre2 = []))
       \<and> (\<forall>pre v post a rest. g = pre @ (ConsumingLoop, Load v) # post \<and> 0 < v
            \<and> acts_of ConsumingLoop post = a # rest \<longrightarrow>
            (\<exists>v'. a = Load v') \<or> a = LoopReturn)"
proof -
  from assms have loop: "acts_of ConsumingLoop g = retry_loop AtCondition 0 ls"
    and agree: "loads_agree 0 g"
    by (simp_all add: joint_run_def)
  have one: "\<exists>pre1 v pre2. pre = pre1 @ (ConsumingLoop, Load v) # pre2 \<and> v \<le> 0
               \<and> errLooped_after 0 pre1 = v \<and> acts_of ConsumingLoop pre2 = []"
    if g: "g = pre @ (ConsumingLoop, Consume ts) # post" for pre ts post
  proof -
    from loop g have "retry_loop AtCondition 0 ls =
        acts_of ConsumingLoop pre @ Consume ts # acts_of ConsumingLoop post"
      by (simp add: acts_of_def)
    from retry_loop_consume[OF this] obtain pre' v where
      l: "acts_of ConsumingLoop pre = pre' @ [Load v]" and v: "v \<le> 0" by auto
    from acts_of_last[OF l] obtain pre1 pre2 where
      p: "pre = pre1 @ (ConsumingLoop, Load v) # pre2" and e: "acts_of ConsumingLoop pre2 = []"
      by blast
    from agree g p have "loads_agree (errLooped_after 0 pre1)
        ((ConsumingLoop, Load v) # pre2 @ (ConsumingLoop, Consume ts) # post)"
      by (simp add: loads_agree_append)
    then have "errLooped_after 0 pre1 = v" by simp
    with p v e show ?thesis by blast
  qed
  have two: "(\<exists>v'. a = Load v') \<or> a = LoopReturn"
    if g: "g = pre @ (ConsumingLoop, Load v) # post" and v: "0 < v"
      and a: "acts_of ConsumingLoop post = a # rest" for pre v post a rest
  proof -
    from loop g a have "retry_loop AtCondition 0 ls =
        acts_of ConsumingLoop pre @ Load v # a # rest"
      by (simp add: acts_of_def)
    from retry_loop_positive_read[OF this v] show ?thesis .
  qed
  from one two show ?thesis by blast
qed

theorem consume_follows_zero_read_example:
  "joint_run (counting_backoff 3)
     [ShouldClose False, Loaded 0, Inbound \<lparr>Payload = [''a''], responseChan = 7\<rparr>, Taken,
      ShouldClose False, Loaded 1, Ticked, Loaded 0,
      Inbound \<lparr>Payload = [''b''], responseChan = 8\<rparr>]
     [([ResultErr (ErrorsNew ''test'') 0 Resent, ResultNil], AckDelivered)]
     ([(ConsumingLoop, Load 0), (ConsumingLoop, Consume \<lparr>Payload = [''a''], responseChan = 7\<rparr>),
       (ConsumingLoop, Downstream [''a''] 0),
       (ConsumingLoop, Go \<lparr>Payload = [''a''], responseChan = 7\<rparr> 0),
       (Goroutine 0, IncErrLooped), (ConsumingLoop, Load 1), (Goroutine 0, BackoffWait 100),
       (Goroutine 0, Downstream [''a''] 0), (Goroutine 0, UpstreamAck 7 None),
       (Goroutine 0, HandlerDone), (Goroutine 0, DecErrLooped), (Goroutine 0, TryInterrupt),
       (ConsumingLoop, Load 0)]
      @ (ConsumingLoop, Consume \<lparr>Payload = [''b''], responseChan = 8\<rparr>) # [])
   \<and> (\<exists>pre1 v pre2.
        [(ConsumingLoop, Load 0), (ConsumingLoop, Consume \<lparr>Payload = [''a''], responseChan = 7\<rparr>),
         (ConsumingLoop, Downstream [''a''] 0),
         (ConsumingLoop, Go \<lparr>Payload = [''a''], responseChan = 7\<rparr> 0),
         (Goroutine 0, IncErrLooped), (ConsumingLoop, Load 1), (Goroutine 0, BackoffWait 100),
         (Goroutine 0, Downstream [''a''] 0), (Goroutine 0, UpstreamAck 7 None),
         (Goroutine 0, HandlerDone), (Goroutine 0, DecErrLooped), (Goroutine 0, TryInterrupt),
         (ConsumingLoop, Load 0)]
        = pre1 @ (ConsumingLoop, Load v) # pre2 \<and> v \<le> 0
        \<and> errLooped_after 0 pre1 = v \<and> acts_of ConsumingLoop pre2 = [])"
proof -
  have jr: "joint_run (counting_backoff 3)
     [ShouldClose False, Loaded 0, Inbound \<lparr>Payload = [''a''], responseChan = 7\<rparr>, Taken,
      ShouldClose False, Loaded 1, Ticked, Loaded 0,
      Inbound \<lparr>Payload = [''b''], responseChan = 8\<rparr>]
     [([ResultErr (ErrorsNew ''test'') 0 Resent, ResultNil], AckDelivered)]
     ([(ConsumingLoop, Load 0), (ConsumingLoop, Consume \<lparr>Payload = [''a''], responseChan = 7\<rparr>),
       (ConsumingLoop, Downstream [''a''] 0),
       (ConsumingLoop, Go \<lparr>Payload = [''a''], responseChan = 7\<rparr> 0),
       (Goroutine 0, IncErrLooped), (ConsumingLoop, Load 1), (Goroutine 0, BackoffWait 100),
       (Goroutine 0, Downstream [''a''] 0), (Goroutine 0, UpstreamAck 7 None),
       (Goroutine 0, HandlerDone), (Goroutine 0, DecErrLooped), (Goroutine 0, TryInterrupt),
       (ConsumingLoop, Load 0)]
      @ (ConsumingLoop, Consume \<lparr>Payload = [''b''], responseChan = 8\<rparr>) # [])"
    by (simp add: joint_run_def acts_of_def handler_def counting_backoff_def Ack_def
        handler_deferred_def)
  from consume_follows_zero_read[OF jr] jr show ?thesis by blast
qed

text \<open>
  Claim C7. The wrapper is to consume no inbound transaction while the counter of
  transactions in their retry loop is positive; the comment on the inner loop says so
  ("Do not consume another message while pending messages are being reattempted"). The
  code reads the counter and then waits on the inbound channel without looking at the
  counter again, and this joint execution breaks the rule: the loop has forwarded a first
  transaction and, having read the counter as zero, waits on the inbound channel; the
  downstream reports a failure for the first transaction, whose goroutine enters its retry
  loop and raises the counter to one; the next inbound transaction arrives and the loop
  consumes it while the counter is one.
\<close>

theorem consumes_while_retrying_race:
  "joint_run (counting_backoff 3)
     [ShouldClose False, Loaded 0, Inbound \<lparr>Payload = [''a''], responseChan = 7\<rparr>, Taken,
      ShouldClose False, Loaded 0, Inbound \<lparr>Payload = [''b''], responseChan = 8\<rparr>]
     [([ResultErr (ErrorsNew ''test'') 0 Resent], AckDelivered)]
     [(ConsumingLoop, Load 0), (ConsumingLoop, Consume \<lparr>Payload = [''a''], responseChan = 7\<rparr>),
      (ConsumingLoop, Downstream [''a''] 0),
      (ConsumingLoop, Go \<lparr>Payload = [''a''], responseChan = 7\<rparr> 0),
      (ConsumingLoop, Load 0), (Goroutine 0, IncErrLooped),
      (ConsumingLoop, Consume \<lparr>Payload = [''b''], responseChan = 8\<rparr>),
      (Goroutine 0, BackoffWait 100), (Goroutine 0, Downstream [''a''] 0)]
   \<and> errLooped_after 0
     [(ConsumingLoop, Load 0), (ConsumingLoop, Consume \<lparr>Payload = [''a''], responseChan = 7\<rparr>),
      (ConsumingLoop, Downstream [''a''] 0),
      (ConsumingLoop, Go \<lparr>Payload = [''a''], responseChan = 7\<rparr> 0),
      (ConsumingLoop, Load 0), (Goroutine 0, IncErrLooped)] = 1
   \<and> consumes_while_retrying 0
     [(ConsumingLoop, Load 0), (ConsumingLoop, Consume \<lparr>Payload = [''a''], responseChan = 7\<rparr>),
      (ConsumingLoop, Downstream [''a''] 0),
      (ConsumingLoop, Go \<lparr>Payload = [''a''], responseChan = 7\<rparr> 0),
      (ConsumingLoop, Load 0), (Goroutine 0, IncErrLooped),
      (ConsumingLoop, Consume \<lparr>Payload = [''b''], responseChan = 8\<rparr>),
      (Goroutine 0, BackoffWait 100), (Goroutine 0, Downstream [''a''] 0)]"
  by (simp add: joint_run_def acts_of_def handler_def counting_backoff_def)

end
